theory Spec2Isabelle
  imports Complex_Main "HOL-Library.Multiset" "HOL-Library.Monad_Syntax"
begin

section \<open>Data model (src/src/types.ts)\<close>

text \<open>
  A JavaScript \<^verbatim>\<open>number\<close> is modelled as a real. The arithmetic of the scheduler is
  given twice: as exact arithmetic, and with the result of every operation rounded, for
  the properties that depend on the rounding. Overflow, infinities and NaN are outside
  the model. A JavaScript string is a list of characters. An optional field \<^verbatim>\<open>f?: T\<close>
  is a \<open>T option\<close>, with \<open>None\<close> for an absent field.
\<close>

datatype NodeShape =
    Rectangle | Rounded | Diamond | Stadium | Circle
  | Subroutine | Doublecircle | Hexagon
  | Cylinder | Asymmetric | Trapezoid | TrapezoidAlt
  | StateStart | StateEnd

datatype EdgeStyle = Solid | Dotted | Thick

record Point =
  point_x :: real
  point_y :: real

record PositionedNode =
  node_id :: string
  node_label :: string
  node_shape :: NodeShape
  node_x :: real
  node_y :: real
  node_width :: real
  node_height :: real
  node_inlineStyle :: "(string \<times> string) list option"
  node_rank :: "real option"

record PositionedEdge =
  edge_source :: string
  edge_target :: string
  edge_label :: "string option"
  edge_style :: EdgeStyle
  edge_hasArrowStart :: bool
  edge_hasArrowEnd :: bool
  edge_points :: "Point list"
  edge_labelPosition :: "Point option"
  edge_sourceRank :: "real option"
  edge_targetRank :: "real option"

datatype PositionedGroup =
  PositionedGroup
    (group_id: string)
    (group_label: string)
    (group_x: real)
    (group_y: real)
    (group_width: real)
    (group_height: real)
    (group_children: "PositionedGroup list")
    (group_rank: "real option")

record PositionedGraph =
  graph_width :: real
  graph_height :: real
  graph_nodes :: "PositionedNode list"
  graph_edges :: "PositionedEdge list"
  graph_groups :: "PositionedGroup list"

datatype NodeAnimation = NodeFade | NodeFadeUp | NodeScale | NodeNone

datatype EdgeAnimation = EdgeDraw | EdgeFade | EdgeNone

record AnimationOptions =
  opt_duration :: "real option"
  opt_stagger :: "real option"
  opt_groupDelay :: "real option"
  opt_nodeOverlap :: "real option"
  opt_nodeEasing :: "string option"
  opt_edgeEasing :: "string option"
  opt_nodeAnimation :: "NodeAnimation option"
  opt_edgeAnimation :: "EdgeAnimation option"
  opt_reducedMotion :: "bool option"

record ResolvedAnimation =
  duration :: real
  stagger :: real
  groupDelay :: real
  nodeOverlap :: real
  nodeEasing :: string
  edgeEasing :: string
  nodeAnimation :: NodeAnimation
  edgeAnimation :: EdgeAnimation
  reducedMotion :: bool

section \<open>Option resolution (src/src/animation.ts, resolveAnimation)\<close>

definition DEFAULTS :: ResolvedAnimation where
  "DEFAULTS =
     \<lparr> duration = 650, stagger = 0, groupDelay = 110, nodeOverlap = 35 / 100,
       nodeEasing = ''ease'', edgeEasing = ''ease-in-out'',
       nodeAnimation = NodeFade, edgeAnimation = EdgeDraw, reducedMotion = True \<rparr>"

text \<open>The argument \<^verbatim>\<open>boolean | AnimationOptions | undefined\<close> of resolveAnimation.\<close>

datatype animate_arg =
    AnimateUndefined
  | AnimateBool bool
  | AnimateOptions AnimationOptions

text \<open>
  \<^verbatim>\<open>{ ...DEFAULTS, ...animate }\<close>: a field given by the caller replaces the default, whatever
  its value. (A field present with the value \<^verbatim>\<open>undefined\<close>, which the type of the resolved
  options excludes, is outside the model.)
\<close>

definition spread_field :: "'a \<Rightarrow> 'a option \<Rightarrow> 'a" where
  "spread_field dflt given = (case given of None \<Rightarrow> dflt | Some v \<Rightarrow> v)"

definition spread :: "ResolvedAnimation \<Rightarrow> AnimationOptions \<Rightarrow> ResolvedAnimation" where
  "spread d a =
     \<lparr> duration = spread_field (duration d) (opt_duration a),
       stagger = spread_field (stagger d) (opt_stagger a),
       groupDelay = spread_field (groupDelay d) (opt_groupDelay a),
       nodeOverlap = spread_field (nodeOverlap d) (opt_nodeOverlap a),
       nodeEasing = spread_field (nodeEasing d) (opt_nodeEasing a),
       edgeEasing = spread_field (edgeEasing d) (opt_edgeEasing a),
       nodeAnimation = spread_field (nodeAnimation d) (opt_nodeAnimation a),
       edgeAnimation = spread_field (edgeAnimation d) (opt_edgeAnimation a),
       reducedMotion = spread_field (reducedMotion d) (opt_reducedMotion a) \<rparr>"

text \<open>The result \<open>None\<close> is the source's \<^verbatim>\<open>null\<close> (animation disabled).\<close>

fun resolveAnimation :: "animate_arg \<Rightarrow> ResolvedAnimation option" where
  "resolveAnimation AnimateUndefined = None"
| "resolveAnimation (AnimateBool False) = None"
| "resolveAnimation (AnimateBool True) = Some DEFAULTS"
| "resolveAnimation (AnimateOptions a) = Some (spread DEFAULTS a)"

section \<open>CSS easing to SMIL keySplines (src/src/animation.ts, cssEasingToSmil)\<close>

definition NAMED_EASINGS :: "(string \<times> string) list" where
  "NAMED_EASINGS =
     [ (''ease'', ''0.25 0.1 0.25 1''),
       (''ease-in'', ''0.42 0 1 1''),
       (''ease-out'', ''0 0 0.58 1''),
       (''ease-in-out'', ''0.42 0 0.58 1''),
       (''linear'', ''0 0 1 1'') ]"

text \<open>
  \<^verbatim>\<open>NAMED_EASINGS\<close> is a plain object, so \<^verbatim>\<open>NAMED_EASINGS[easing]\<close> also finds the
  properties inherited from \<^verbatim>\<open>Object.prototype\<close>; each of them is truthy and none is a
  string.
\<close>

definition object_prototype_keys :: "string list" where
  "object_prototype_keys =
     [ ''constructor'', ''__proto__'', ''hasOwnProperty'', ''isPrototypeOf'',
       ''propertyIsEnumerable'', ''toLocaleString'', ''toString'', ''valueOf'',
       ''__defineGetter__'', ''__defineSetter__'', ''__lookupGetter__'',
       ''__lookupSetter__'' ]"

datatype easing_result = KeySplines string | InheritedProperty string

text \<open>The character classes \<^verbatim>\<open>[\d.]\<close> and \<^verbatim>\<open>\s\<close> (on code units below 256).\<close>

definition is_digit_or_dot :: "char \<Rightarrow> bool" where
  "is_digit_or_dot c = (c \<in> set ''0123456789.'')"

definition is_space :: "char \<Rightarrow> bool" where
  "is_space c =
     (c \<in> set [CHR 0x20, CHR 0x09, CHR 0x0A, CHR 0x0B, CHR 0x0C, CHR 0x0D, CHR 0xA0])"

definition skip_spaces :: "string \<Rightarrow> string" where
  "skip_spaces s = dropWhile is_space s"

definition take_number :: "string \<Rightarrow> (string \<times> string) option" where
  "take_number s =
     (let d = takeWhile is_digit_or_dot s
      in if d = [] then None else Some (d, dropWhile is_digit_or_dot s))"

definition expect_char :: "char \<Rightarrow> string \<Rightarrow> string option" where
  "expect_char c s = (case s of [] \<Rightarrow> None | a # r \<Rightarrow> if a = c then Some r else None)"

definition expect_prefix :: "string \<Rightarrow> string \<Rightarrow> string option" where
  "expect_prefix p s = (if take (length p) s = p then Some (drop (length p) s) else None)"

text \<open>
  One attempt of the pattern
  \<^verbatim>\<open>cubic-bezier\(\s*([\d.]+)\s*,\s*([\d.]+)\s*,\s*([\d.]+)\s*,\s*([\d.]+)\s*\)\<close>
  at the head of the string. The classes \<^verbatim>\<open>\s\<close> and \<^verbatim>\<open>[\d.]\<close> and the literals
  that follow them are pairwise disjoint, so the greedy match is the only one.
\<close>

definition match_here :: "string \<Rightarrow> (string \<times> string \<times> string \<times> string) option" where
  "match_here s = do {
     r0 \<leftarrow> expect_prefix ''cubic-bezier('' s;
     (x1, r1) \<leftarrow> take_number (skip_spaces r0);
     r2 \<leftarrow> expect_char CHR '','' (skip_spaces r1);
     (y1, r3) \<leftarrow> take_number (skip_spaces r2);
     r4 \<leftarrow> expect_char CHR '','' (skip_spaces r3);
     (x2, r5) \<leftarrow> take_number (skip_spaces r4);
     r6 \<leftarrow> expect_char CHR '','' (skip_spaces r5);
     (y2, r7) \<leftarrow> take_number (skip_spaces r6);
     _ \<leftarrow> expect_char CHR '')'' (skip_spaces r7);
     Some (x1, y1, x2, y2)
   }"

text \<open>\<^verbatim>\<open>easing.match(...)\<close>: the leftmost position at which the pattern matches.\<close>

fun regex_match :: "string \<Rightarrow> (string \<times> string \<times> string \<times> string) option" where
  "regex_match [] = match_here []"
| "regex_match (c # cs) =
     (case match_here (c # cs) of Some m \<Rightarrow> Some m | None \<Rightarrow> regex_match cs)"

definition cssEasingToSmil :: "string \<Rightarrow> easing_result" where
  "cssEasingToSmil easing =
     (case map_of NAMED_EASINGS easing of
        Some named \<Rightarrow> KeySplines named
      | None \<Rightarrow>
          if easing \<in> set object_prototype_keys then InheritedProperty easing
          else (case regex_match easing of
                  Some (x1, y1, x2, y2) \<Rightarrow>
                    KeySplines (x1 @ '' '' @ y1 @ '' '' @ x2 @ '' '' @ y2)
                | None \<Rightarrow> KeySplines ''0 0 0.58 1''))"

section \<open>XML escaping (src/dist/index.d.ts, escapeXml)\<close>

text \<open>\<^verbatim>\<open>text.replace(/c/g, rep)\<close> for a one-character pattern.\<close>

definition replace_all :: "char \<Rightarrow> string \<Rightarrow> string \<Rightarrow> string" where
  "replace_all c rep text = concat (map (\<lambda>a. if a = c then rep else [a]) text)"

definition escapeXml :: "string \<Rightarrow> string" where
  "escapeXml text =
     replace_all (CHR 0x27) ''&#39;''
       (replace_all (CHR 0x22) ''&quot;''
         (replace_all CHR ''>'' ''&gt;''
           (replace_all CHR ''<'' ''&lt;''
             (replace_all CHR ''&'' ''&amp;'' text))))"

text \<open>The entity of one character.\<close>

definition xml_entity :: "char \<Rightarrow> string" where
  "xml_entity c =
     (if c = CHR ''&'' then ''&amp;''
      else if c = CHR ''<'' then ''&lt;''
      else if c = CHR ''>'' then ''&gt;''
      else if c = CHR 0x22 then ''&quot;''
      else if c = CHR 0x27 then ''&#39;''
      else [c])"

section \<open>Delay computation (src/src/animation.ts, computeDelays)\<close>

record ElementDelays =
  nodes :: "string \<rightharpoonup> real"
  edges :: "nat \<rightharpoonup> real"
  groups :: "string \<rightharpoonup> real"

text \<open>
  A JavaScript \<^verbatim>\<open>Map\<close> whose values are arrays is an association list in insertion
  order. \<open>map_push k v m\<close> is the source's
  \<^verbatim>\<open>if (!m.has(k)) m.set(k, []); m.get(k).push(v)\<close>.
\<close>

fun map_push :: "'k \<Rightarrow> 'v \<Rightarrow> ('k \<times> 'v list) list \<Rightarrow> ('k \<times> 'v list) list" where
  "map_push k v [] = [(k, [v])]"
| "map_push k v ((k', vs) # m) =
     (if k' = k then (k', vs @ [v]) # m else (k', vs) # map_push k v m)"

text \<open>The incoming-edge index: target node id to the indices of the edges into it.\<close>

definition incomingEdges :: "PositionedEdge list \<Rightarrow> (string \<times> nat list) list" where
  "incomingEdges es =
     foldl (\<lambda>m i. map_push (edge_target (es ! i)) i m) [] [0..<length es]"

text \<open>\<^verbatim>\<open>node.rank ?? 0\<close>\<close>

definition rank_of :: "PositionedNode \<Rightarrow> real" where
  "rank_of node = (case node_rank node of None \<Rightarrow> 0 | Some r \<Rightarrow> r)"

text \<open>
  The rank buckets, each sorted by \<^verbatim>\<open>(a, b) => a.x - b.x\<close>. \<^verbatim>\<open>Array.prototype.sort\<close>
  is stable, as \<open>sort_key\<close> is.
\<close>

definition rankBuckets :: "PositionedNode list \<Rightarrow> (real \<times> PositionedNode list) list" where
  "rankBuckets ns =
     map (\<lambda>(rank, bucket). (rank, sort_key node_x bucket))
       (foldl (\<lambda>m node. map_push (rank_of node) node m) [] ns)"

definition sortedRanks :: "PositionedNode list \<Rightarrow> real list" where
  "sortedRanks ns = sort (map fst (rankBuckets ns))"

text \<open>\<^verbatim>\<open>rankBuckets.get(rank)!\<close>\<close>

definition bucket_of :: "PositionedNode list \<Rightarrow> real \<Rightarrow> PositionedNode list" where
  "bucket_of ns rank = (case map_of (rankBuckets ns) rank of None \<Rightarrow> [] | Some b \<Rightarrow> b)"

text \<open>\<^verbatim>\<open>edges.get(edgeIdx) ?? 0\<close>\<close>

definition edge_delay_or_0 :: "(nat \<rightharpoonup> real) \<Rightarrow> nat \<Rightarrow> real" where
  "edge_delay_or_0 edgs edgeIdx = (case edgs edgeIdx of None \<Rightarrow> 0 | Some d \<Rightarrow> d)"

text \<open>The loop over the incoming edges that computes \<^verbatim>\<open>latestEdgeEnd\<close>, from 0.\<close>

definition latestEdgeEnd :: "ResolvedAnimation \<Rightarrow> (nat \<rightharpoonup> real) \<Rightarrow> nat list \<Rightarrow> real" where
  "latestEdgeEnd opts edgs incoming =
     foldl (\<lambda>latest edgeIdx. max latest (edge_delay_or_0 edgs edgeIdx + duration opts))
       0 incoming"

text \<open>The loop that sets the delay of every edge whose source is the node.\<close>

definition set_outgoing ::
  "PositionedEdge list \<Rightarrow> string \<Rightarrow> real \<Rightarrow> (nat \<rightharpoonup> real) \<Rightarrow> (nat \<rightharpoonup> real)" where
  "set_outgoing es nid v edgs =
     foldl (\<lambda>m ei. if edge_source (es ! ei) = nid then m(ei \<mapsto> v) else m)
       edgs [0..<length es]"

text \<open>The delay a node receives, given the edge delays computed so far.\<close>

definition node_delay ::
  "PositionedEdge list \<Rightarrow> ResolvedAnimation \<Rightarrow> (nat \<rightharpoonup> real) \<Rightarrow>
   real \<Rightarrow> nat \<Rightarrow> PositionedNode \<Rightarrow> real" where
  "node_delay es opts edgs rank i node =
     (let withinRankStagger = stagger opts * (5 / 10) in
      case map_of (incomingEdges es) (node_id node) of
        None \<Rightarrow> rank * stagger opts + real i * withinRankStagger
      | Some incoming \<Rightarrow>
          if incoming = [] then rank * stagger opts + real i * withinRankStagger
          else
            let overlap = duration opts * nodeOverlap opts
            in latestEdgeEnd opts edgs incoming - overlap + real i * withinRankStagger)"

text \<open>The body of the inner loop: node \<open>i\<close> of the bucket of \<open>rank\<close>.\<close>

definition process_node ::
  "PositionedEdge list \<Rightarrow> ResolvedAnimation \<Rightarrow> real \<Rightarrow>
   (string \<rightharpoonup> real) \<times> (nat \<rightharpoonup> real) \<Rightarrow> nat \<times> PositionedNode \<Rightarrow>
   (string \<rightharpoonup> real) \<times> (nat \<rightharpoonup> real)" where
  "process_node es opts rank st item =
     (case st of (nods, edgs) \<Rightarrow>
      case item of (i, node) \<Rightarrow>
        let nodeDelay = node_delay es opts edgs rank i node
        in (nods(node_id node \<mapsto> nodeDelay),
            set_outgoing es (node_id node) (nodeDelay + duration opts) edgs))"

definition process_rank ::
  "PositionedGraph \<Rightarrow> ResolvedAnimation \<Rightarrow>
   (string \<rightharpoonup> real) \<times> (nat \<rightharpoonup> real) \<Rightarrow> real \<Rightarrow>
   (string \<rightharpoonup> real) \<times> (nat \<rightharpoonup> real)" where
  "process_rank graph opts st rank =
     foldl (process_node (graph_edges graph) opts rank) st
       (enumerate 0 (bucket_of (graph_nodes graph) rank))"

definition cascade ::
  "PositionedGraph \<Rightarrow> ResolvedAnimation \<Rightarrow> (string \<rightharpoonup> real) \<times> (nat \<rightharpoonup> real)" where
  "cascade graph opts =
     foldl (process_rank graph opts) (Map.empty, Map.empty) (sortedRanks (graph_nodes graph))"

subsection \<open>Group delays (collectGroupDelays)\<close>

definition GROUP_REVEAL_PROGRESS :: real where
  "GROUP_REVEAL_PROGRESS = 6 / 10"

text \<open>The bounding-box test of the source.\<close>

definition inside_group :: "PositionedNode \<Rightarrow> PositionedGroup \<Rightarrow> bool" where
  "inside_group node g =
     (node_x node \<ge> group_x g \<and> node_x node + node_width node \<le> group_x g + group_width g \<and>
      node_y node \<ge> group_y g \<and> node_y node + node_height node \<le> group_y g + group_height g)"

definition group_maxDelay ::
  "PositionedNode list \<Rightarrow> (string \<rightharpoonup> real) \<Rightarrow> PositionedGroup \<Rightarrow> real" where
  "group_maxDelay allNodes nodeDelays g =
     foldl (\<lambda>maxDelay node.
              case nodeDelays (node_id node) of
                None \<Rightarrow> maxDelay
              | Some nd \<Rightarrow>
                  if inside_group node g then (if nd > maxDelay then nd else maxDelay)
                  else maxDelay)
       0 allNodes"

definition group_delay ::
  "PositionedNode list \<Rightarrow> ResolvedAnimation \<Rightarrow> (string \<rightharpoonup> real) \<Rightarrow> PositionedGroup \<Rightarrow> real" where
  "group_delay allNodes opts nodeDelays g =
     group_maxDelay allNodes nodeDelays g + duration opts * GROUP_REVEAL_PROGRESS + groupDelay opts"

fun collectGroupDelays ::
  "PositionedGroup list \<Rightarrow> PositionedNode list \<Rightarrow> ResolvedAnimation \<Rightarrow>
   (string \<rightharpoonup> real) \<Rightarrow> (string \<rightharpoonup> real) \<Rightarrow> (string \<rightharpoonup> real)" where
  "collectGroupDelays [] allNodes opts nodeDelays out = out"
| "collectGroupDelays (PositionedGroup gid lbl gx gy gw gh children rk # gs)
       allNodes opts nodeDelays out =
     collectGroupDelays gs allNodes opts nodeDelays
       ((collectGroupDelays children allNodes opts nodeDelays out)
          (gid \<mapsto> group_delay allNodes opts nodeDelays
                    (PositionedGroup gid lbl gx gy gw gh children rk)))"

definition computeDelays :: "PositionedGraph \<Rightarrow> ResolvedAnimation \<Rightarrow> ElementDelays" where
  "computeDelays graph opts =
     (case cascade graph opts of (nods, edgs) \<Rightarrow>
        \<lparr> nodes = nods, edges = edgs,
          groups = collectGroupDelays (graph_groups graph) (graph_nodes graph) opts nods Map.empty \<rparr>)"

section \<open>Delay computation in rounded arithmetic\<close>

text \<open>
  The source computes with IEEE doubles: each \<^verbatim>\<open>+\<close>, \<^verbatim>\<open>-\<close> and \<^verbatim>\<open>*\<close> delivers the rounding
  of its exact result, and a decimal literal denotes the rounding of its value. In the
  definitions of this section \<open>fl\<close> is that rounding. It is applied to the exact result of
  every arithmetic operation of computeDelays and collectGroupDelays, in the order in
  which the source performs them (\<^verbatim>\<open>a - b + c\<close> is \<^verbatim>\<open>(a - b) + c\<close>), and to the literals
  0.5 and 0.6. \<^verbatim>\<open>Math.max\<close> and the comparisons do not round, and the loop index is an
  integer. The values of the layout and of the configuration are the numbers they are.
  With the identity for \<open>fl\<close> the definitions are those of the previous section.

  \<open>rounding u eta fl\<close>: \<open>fl\<close> is monotone, leaves 0 as it is, and delivers for the exact
  value \<open>x\<close> a value within \<open>u * \<bar>x\<bar> + eta\<close> of it. Rounding to the nearest number with a
  significand of 53 bits and an exponent of at least -1074, without a largest exponent,
  is such a function with u = 2^(-53) and eta = 2^(-1075) (half the distance of two
  subnormal numbers); it is what IEEE double precision computes as long as no operation
  overflows. Overflow, infinities and NaN are not represented.
\<close>

definition rounding :: "real \<Rightarrow> real \<Rightarrow> (real \<Rightarrow> real) \<Rightarrow> bool" where
  "rounding u eta fl \<longleftrightarrow> mono fl \<and> fl 0 = 0 \<and> (\<forall>x. \<bar>fl x - x\<bar> \<le> u * \<bar>x\<bar> + eta)"

text \<open>\<^verbatim>\<open>latestEdgeEnd = Math.max(latestEdgeEnd, edgeDelay + opts.duration)\<close>, from 0.\<close>

definition latestEdgeEnd_fl ::
  "(real \<Rightarrow> real) \<Rightarrow> ResolvedAnimation \<Rightarrow> (nat \<rightharpoonup> real) \<Rightarrow> nat list \<Rightarrow> real" where
  "latestEdgeEnd_fl fl opts edgs incoming =
     foldl (\<lambda>latest edgeIdx. max latest (fl (edge_delay_or_0 edgs edgeIdx + duration opts)))
       0 incoming"

text \<open>
  \<^verbatim>\<open>rank * opts.stagger + i * withinRankStagger\<close> for a root, and
  \<^verbatim>\<open>latestEdgeEnd - overlap + i * withinRankStagger\<close> otherwise, with
  \<^verbatim>\<open>withinRankStagger = opts.stagger * 0.5\<close> and \<^verbatim>\<open>overlap = opts.duration * opts.nodeOverlap\<close>.
\<close>

definition node_delay_fl ::
  "(real \<Rightarrow> real) \<Rightarrow> PositionedEdge list \<Rightarrow> ResolvedAnimation \<Rightarrow> (nat \<rightharpoonup> real) \<Rightarrow>
   real \<Rightarrow> nat \<Rightarrow> PositionedNode \<Rightarrow> real" where
  "node_delay_fl fl es opts edgs rank i node =
     (let withinRankStagger = fl (stagger opts * fl (5 / 10)) in
      case map_of (incomingEdges es) (node_id node) of
        None \<Rightarrow> fl (fl (rank * stagger opts) + fl (real i * withinRankStagger))
      | Some incoming \<Rightarrow>
          if incoming = [] then fl (fl (rank * stagger opts) + fl (real i * withinRankStagger))
          else
            let overlap = fl (duration opts * nodeOverlap opts)
            in fl (fl (latestEdgeEnd_fl fl opts edgs incoming - overlap)
                   + fl (real i * withinRankStagger)))"

text \<open>The body of the inner loop; an outgoing edge gets \<^verbatim>\<open>nodeDelay + opts.duration\<close>.\<close>

definition process_node_fl ::
  "(real \<Rightarrow> real) \<Rightarrow> PositionedEdge list \<Rightarrow> ResolvedAnimation \<Rightarrow> real \<Rightarrow>
   (string \<rightharpoonup> real) \<times> (nat \<rightharpoonup> real) \<Rightarrow> nat \<times> PositionedNode \<Rightarrow>
   (string \<rightharpoonup> real) \<times> (nat \<rightharpoonup> real)" where
  "process_node_fl fl es opts rank st item =
     (case st of (nods, edgs) \<Rightarrow>
      case item of (i, node) \<Rightarrow>
        let nodeDelay = node_delay_fl fl es opts edgs rank i node
        in (nods(node_id node \<mapsto> nodeDelay),
            set_outgoing es (node_id node) (fl (nodeDelay + duration opts)) edgs))"

definition process_rank_fl ::
  "(real \<Rightarrow> real) \<Rightarrow> PositionedGraph \<Rightarrow> ResolvedAnimation \<Rightarrow>
   (string \<rightharpoonup> real) \<times> (nat \<rightharpoonup> real) \<Rightarrow> real \<Rightarrow>
   (string \<rightharpoonup> real) \<times> (nat \<rightharpoonup> real)" where
  "process_rank_fl fl graph opts st rank =
     foldl (process_node_fl fl (graph_edges graph) opts rank) st
       (enumerate 0 (bucket_of (graph_nodes graph) rank))"

definition cascade_fl ::
  "(real \<Rightarrow> real) \<Rightarrow> PositionedGraph \<Rightarrow> ResolvedAnimation \<Rightarrow>
   (string \<rightharpoonup> real) \<times> (nat \<rightharpoonup> real)" where
  "cascade_fl fl graph opts =
     foldl (process_rank_fl fl graph opts) (Map.empty, Map.empty) (sortedRanks (graph_nodes graph))"

text \<open>\<^verbatim>\<open>maxDelay + opts.duration * GROUP_REVEAL_PROGRESS + opts.groupDelay\<close>\<close>

definition group_delay_fl ::
  "(real \<Rightarrow> real) \<Rightarrow> PositionedNode list \<Rightarrow> ResolvedAnimation \<Rightarrow> (string \<rightharpoonup> real) \<Rightarrow>
   PositionedGroup \<Rightarrow> real" where
  "group_delay_fl fl allNodes opts nodeDelays g =
     fl (fl (group_maxDelay allNodes nodeDelays g + fl (duration opts * fl GROUP_REVEAL_PROGRESS))
         + groupDelay opts)"

fun collectGroupDelays_fl ::
  "(real \<Rightarrow> real) \<Rightarrow> PositionedGroup list \<Rightarrow> PositionedNode list \<Rightarrow> ResolvedAnimation \<Rightarrow>
   (string \<rightharpoonup> real) \<Rightarrow> (string \<rightharpoonup> real) \<Rightarrow> (string \<rightharpoonup> real)" where
  "collectGroupDelays_fl fl [] allNodes opts nodeDelays out = out"
| "collectGroupDelays_fl fl (PositionedGroup gid lbl gx gy gw gh children rk # gs)
       allNodes opts nodeDelays out =
     collectGroupDelays_fl fl gs allNodes opts nodeDelays
       ((collectGroupDelays_fl fl children allNodes opts nodeDelays out)
          (gid \<mapsto> group_delay_fl fl allNodes opts nodeDelays
                    (PositionedGroup gid lbl gx gy gw gh children rk)))"

definition computeDelays_fl ::
  "(real \<Rightarrow> real) \<Rightarrow> PositionedGraph \<Rightarrow> ResolvedAnimation \<Rightarrow> ElementDelays" where
  "computeDelays_fl fl graph opts =
     (case cascade_fl fl graph opts of (nods, edgs) \<Rightarrow>
        \<lparr> nodes = nods, edges = edgs,
          groups = collectGroupDelays_fl fl (graph_groups graph) (graph_nodes graph) opts nods
                     Map.empty \<rparr>)"

section \<open>Label rendering (src/dist/index.d.ts: renderNodeLabel, renderEdgeLabel, renderGroupLabelsInner)\<close>

text \<open>
  The renderer builds its output with template literals. The conversion of a number to
  its decimal string is the language's own; it is the parameter \<open>num\<close> of the
  definitions below. The constants \<^verbatim>\<open>TEXT_BASELINE_SHIFT\<close> and
  \<^verbatim>\<open>FONT_WEIGHTS.edgeLabel\<close> and the functions \<^verbatim>\<open>estimateTextWidth\<close> and
  \<^verbatim>\<open>estimateMonoTextWidth\<close> come from \<^verbatim>\<open>styles.ts\<close> and are parameters as well.
\<close>

datatype js_error = TypeError

text \<open>\<^verbatim>\<open>inlineStyle?.[key]\<close>\<close>

definition inlineStyle_get :: "(string \<times> string) list option \<Rightarrow> string \<Rightarrow> string option" where
  "inlineStyle_get style key = (case style of None \<Rightarrow> None | Some props \<Rightarrow> map_of props key)"

definition renderNodeLabel ::
  "(real \<Rightarrow> string) \<Rightarrow> string \<Rightarrow> PositionedNode \<Rightarrow> string \<Rightarrow> real \<Rightarrow> real \<Rightarrow> real \<Rightarrow> string" where
  \<open>renderNodeLabel num TEXT_BASELINE_SHIFT node font fontSize fontWeight letterSpacing =
     (if (node_shape node = StateStart \<or> node_shape node = StateEnd) \<and> node_label node = []
      then []
      else
        let cx = node_x node + node_width node / 2;
            cy = node_y node + node_height node / 2;
            textColor = escapeXml (case inlineStyle_get (node_inlineStyle node) ''color'' of
                                     None \<Rightarrow> ''var(--_text)'' | Some c \<Rightarrow> c);
            lsAttr = (if letterSpacing \<noteq> 0
                      then '' letter-spacing="'' @ num letterSpacing @ ''"'' else [])
        in ''<text x="'' @ num cx @ ''" y="'' @ num cy @
           ''" text-anchor="middle" dy="'' @ TEXT_BASELINE_SHIFT @ ''" '' @
           ''font-size="'' @ num fontSize @ ''" font-weight="'' @ num fontWeight @ ''"'' @
           lsAttr @ '' '' @
           ''fill="'' @ textColor @ ''">'' @ escapeXml (node_label node) @ ''</text>'')\<close>

definition dist_points :: "Point \<Rightarrow> Point \<Rightarrow> real" where
  "dist_points a b = sqrt ((point_x b - point_x a)\<^sup>2 + (point_y b - point_y a)\<^sup>2)"

text \<open>The first loop of edgeMidpoint: the length of the polyline.\<close>

fun totalLength :: "Point \<Rightarrow> Point list \<Rightarrow> real" where
  "totalLength prev [] = 0"
| "totalLength prev (p # ps) = dist_points prev p + totalLength p ps"

text \<open>
  The second loop of edgeMidpoint, which returns inside the first segment long enough.
  For a segment of length 0 the source divides 0 by 0 and the coordinates are NaN; here the
  quotient is 0 and the point is the start of the segment.
\<close>

fun walk_segments :: "real \<Rightarrow> Point \<Rightarrow> Point list \<Rightarrow> Point" where
  "walk_segments remaining prev [] = prev"
| "walk_segments remaining prev (p # ps) =
     (let segLen = dist_points prev p in
      if remaining \<le> segLen then
        (let t = remaining / segLen in
         \<lparr> point_x = point_x prev + t * (point_x p - point_x prev),
           point_y = point_y prev + t * (point_y p - point_y prev) \<rparr>)
      else walk_segments (remaining - segLen) p ps)"

fun edgeMidpoint :: "Point list \<Rightarrow> Point" where
  "edgeMidpoint [] = \<lparr> point_x = 0, point_y = 0 \<rparr>"
| "edgeMidpoint [p] = p"
| "edgeMidpoint (p # ps) = walk_segments (totalLength p ps / 2) p ps"

text \<open>
  \<^verbatim>\<open>edge.label!\<close> of an edge without a label is \<^verbatim>\<open>undefined\<close>, and escapeXml of it
  throws; renderSvg calls the function for labelled edges only.
\<close>

definition renderEdgeLabel ::
  "(real \<Rightarrow> string) \<Rightarrow> string \<Rightarrow> real \<Rightarrow> (string \<Rightarrow> real \<Rightarrow> real) \<Rightarrow>
   PositionedEdge \<Rightarrow> string \<Rightarrow> real \<Rightarrow> real \<Rightarrow> js_error + string" where
  \<open>renderEdgeLabel num TEXT_BASELINE_SHIFT FONT_WEIGHTS_edgeLabel estimateMonoTextWidth
       edge font edgeFontSize lineWidth =
     (case edge_label edge of
        None \<Rightarrow> Inl TypeError
      | Some label \<Rightarrow>
          let mid = (case edge_labelPosition edge of
                       None \<Rightarrow> edgeMidpoint (edge_points edge) | Some p \<Rightarrow> p);
              textWidth = estimateMonoTextWidth label edgeFontSize;
              paddingX = 12;
              paddingY = 8;
              bgWidth = textWidth + paddingX * 2;
              bgHeight = edgeFontSize + paddingY * 2;
              pillRadius = bgHeight / 2
          in Inr
            (''<rect x="'' @ num (point_x mid - bgWidth / 2) @
             ''" y="'' @ num (point_y mid - bgHeight / 2) @ ''" '' @
             ''width="'' @ num bgWidth @ ''" height="'' @ num bgHeight @
             ''" rx="'' @ num pillRadius @ ''" ry="'' @ num pillRadius @ ''" '' @
             ''fill="var(--bg)" stroke="var(--_line)" stroke-width="'' @ num lineWidth @
             ''" />'' @ [CHR 0x0A] @
             ''<text class="mono" x="'' @ num (point_x mid) @ ''" y="'' @ num (point_y mid) @
             ''" text-anchor="middle" dy="'' @ TEXT_BASELINE_SHIFT @ ''" '' @
             ''font-size="'' @ num edgeFontSize @
             ''" font-weight="'' @ num FONT_WEIGHTS_edgeLabel @ ''" '' @
             ''fill="var(--_text)">'' @ escapeXml label @ ''</text>''))\<close>

definition renderGroupLabelsInner ::
  "(real \<Rightarrow> string) \<Rightarrow> string \<Rightarrow> (string \<Rightarrow> real \<Rightarrow> real \<Rightarrow> real) \<Rightarrow>
   PositionedGroup \<Rightarrow> string \<Rightarrow> real \<Rightarrow> real \<Rightarrow> string \<Rightarrow> string \<Rightarrow> string" where
  \<open>renderGroupLabelsInner num TEXT_BASELINE_SHIFT estimateTextWidth
       g font groupFontSize groupFontWeight groupFont groupTextTransform =
     (let headerHeight = groupFontSize + 32;
          ttStyle = (if groupTextTransform \<noteq> []
                     then ''text-transform:'' @ groupTextTransform @ '';'' else []);
          label = escapeXml (group_label g);
          labelWidth = estimateTextWidth label groupFontSize groupFontWeight
                         * (if groupTextTransform = ''uppercase'' then 115 / 100 else 1);
          bgPadX = 8;
          bgPadY = 4;
          bgX = group_x g + 16 - bgPadX;
          bgY = group_y g + headerHeight / 2 - groupFontSize / 2 - bgPadY;
          bgW = labelWidth + bgPadX * 2;
          bgH = groupFontSize + bgPadY * 2
      in ''<rect x="'' @ num bgX @ ''" y="'' @ num bgY @ ''" width="'' @ num bgW @
         ''" height="'' @ num bgH @ ''" fill="var(--bg)" rx="2" ry="2" />'' @
         [CHR 0x0A] @ ''<text x="'' @ num (group_x g + 16) @
         ''" y="'' @ num (group_y g + headerHeight / 2) @ ''" '' @
         ''dy="'' @ TEXT_BASELINE_SHIFT @ ''" '' @
         ''style="font-family:'' @ [CHR 0x27] @ groupFont @ [CHR 0x27] @
         '',system-ui,sans-serif;font-size:'' @
         num groupFontSize @ ''px;font-weight:'' @ num groupFontWeight @ '';'' @ ttStyle @ ''" '' @
         ''fill="rgba(255,255,255,0.92)">'' @ label @ ''</text>'')\<close>

section \<open>Notions used to state the properties\<close>

subsection \<open>The cascade as one loop\<close>

text \<open>The indices of the edges into a node, in edge order.\<close>

definition incoming_of :: "PositionedEdge list \<Rightarrow> string \<Rightarrow> nat list" where
  "incoming_of es nid = filter (\<lambda>i. edge_target (es ! i) = nid) [0..<length es]"

text \<open>
  The iterations of the two nested loops of computeDelays, in the order in which they
  run: (rank, index in the bucket of the rank, node).
\<close>

definition schedule_items :: "PositionedNode list \<Rightarrow> (real \<times> nat \<times> PositionedNode) list" where
  "schedule_items ns =
     concat (map (\<lambda>rank. map (Pair rank) (enumerate 0 (bucket_of ns rank))) (sortedRanks ns))"

definition run_items ::
  "PositionedEdge list \<Rightarrow> ResolvedAnimation \<Rightarrow>
   (string \<rightharpoonup> real) \<times> (nat \<rightharpoonup> real) \<Rightarrow> (real \<times> nat \<times> PositionedNode) list \<Rightarrow>
   (string \<rightharpoonup> real) \<times> (nat \<rightharpoonup> real)" where
  "run_items es opts st items =
     foldl (\<lambda>st (rank, item). process_node es opts rank st item) st items"

text \<open>The nodes in the order in which the cascade processes them.\<close>

definition processing_order :: "PositionedNode list \<Rightarrow> PositionedNode list" where
  "processing_order ns = map (\<lambda>(rank, i, node). node) (schedule_items ns)"

text \<open>The nodes processed before the node with the id of \<open>n\<close>.\<close>

definition processed_before :: "PositionedNode list \<Rightarrow> PositionedNode \<Rightarrow> PositionedNode list" where
  "processed_before ns n = takeWhile (\<lambda>m. node_id m \<noteq> node_id n) (processing_order ns)"

definition item_ids :: "(real \<times> nat \<times> PositionedNode) list \<Rightarrow> string set" where
  "item_ids items = set (map (\<lambda>item. node_id (snd (snd item))) items)"

text \<open>
  The invariant of the cascade: every edge whose source is among the ids \<open>P\<close> has the
  delay of its source plus the duration.
\<close>

definition edges_follow ::
  "PositionedEdge list \<Rightarrow> ResolvedAnimation \<Rightarrow> string set \<Rightarrow>
   (string \<rightharpoonup> real) \<times> (nat \<rightharpoonup> real) \<Rightarrow> bool" where
  "edges_follow es opts P st \<longleftrightarrow>
     (\<forall>ei<length es. edge_source (es ! ei) \<in> P \<longrightarrow>
        (\<exists>d. fst st (edge_source (es ! ei)) = Some d \<and> snd st ei = Some (d + duration opts)))"

definition nonneg_map :: "('k \<rightharpoonup> real) \<Rightarrow> bool" where
  "nonneg_map m \<longleftrightarrow> (\<forall>k d. m k = Some d \<longrightarrow> 0 \<le> d)"

subsection \<open>Groups\<close>

text \<open>
  Every group of the forest, in the order in which collectGroupDelays sets the delays:
  the children of a group, then the group, then its later siblings.
\<close>

fun all_groups :: "PositionedGroup list \<Rightarrow> PositionedGroup list" where
  "all_groups [] = []"
| "all_groups (PositionedGroup gid lbl gx gy gw gh children rk # gs) =
     all_groups children @ PositionedGroup gid lbl gx gy gw gh children rk # all_groups gs"

definition set_group_delays ::
  "PositionedNode list \<Rightarrow> ResolvedAnimation \<Rightarrow> (string \<rightharpoonup> real) \<Rightarrow>
   (string \<rightharpoonup> real) \<Rightarrow> PositionedGroup list \<Rightarrow> (string \<rightharpoonup> real)" where
  "set_group_delays allNodes opts nodeDelays out gs =
     foldl (\<lambda>out g. out(group_id g \<mapsto> group_delay allNodes opts nodeDelays g)) out gs"

text \<open>The delays of the nodes whose box lies inside the box of the group.\<close>

definition contained_delays ::
  "PositionedNode list \<Rightarrow> (string \<rightharpoonup> real) \<Rightarrow> PositionedGroup \<Rightarrow> real list" where
  "contained_delays allNodes nodeDelays g =
     concat (map (\<lambda>node. if inside_group node g
                           then (case nodeDelays (node_id node) of None \<Rightarrow> [] | Some nd \<Rightarrow> [nd])
                           else [])
               allNodes)"

subsection \<open>The cascade and the groups in rounded arithmetic\<close>

text \<open>The notions above for the computation with rounding \<open>fl\<close>.\<close>

definition run_items_fl ::
  "(real \<Rightarrow> real) \<Rightarrow> PositionedEdge list \<Rightarrow> ResolvedAnimation \<Rightarrow>
   (string \<rightharpoonup> real) \<times> (nat \<rightharpoonup> real) \<Rightarrow> (real \<times> nat \<times> PositionedNode) list \<Rightarrow>
   (string \<rightharpoonup> real) \<times> (nat \<rightharpoonup> real)" where
  "run_items_fl fl es opts st items =
     foldl (\<lambda>st (rank, item). process_node_fl fl es opts rank st item) st items"

definition edges_follow_fl ::
  "(real \<Rightarrow> real) \<Rightarrow> PositionedEdge list \<Rightarrow> ResolvedAnimation \<Rightarrow> string set \<Rightarrow>
   (string \<rightharpoonup> real) \<times> (nat \<rightharpoonup> real) \<Rightarrow> bool" where
  "edges_follow_fl fl es opts P st \<longleftrightarrow>
     (\<forall>ei<length es. edge_source (es ! ei) \<in> P \<longrightarrow>
        (\<exists>d. fst st (edge_source (es ! ei)) = Some d \<and> snd st ei = Some (fl (d + duration opts))))"

definition set_group_delays_fl ::
  "(real \<Rightarrow> real) \<Rightarrow> PositionedNode list \<Rightarrow> ResolvedAnimation \<Rightarrow> (string \<rightharpoonup> real) \<Rightarrow>
   (string \<rightharpoonup> real) \<Rightarrow> PositionedGroup list \<Rightarrow> (string \<rightharpoonup> real)" where
  "set_group_delays_fl fl allNodes opts nodeDelays out gs =
     foldl (\<lambda>out g. out(group_id g \<mapsto> group_delay_fl fl allNodes opts nodeDelays g)) out gs"

subsection \<open>The inputs the scheduler reads\<close>

text \<open>What computeDelays reads of a node, of an edge, and of the layout and the options.\<close>

definition node_timing :: "PositionedNode \<Rightarrow> string \<times> real \<times> real \<times> real \<times> real \<times> real" where
  "node_timing n = (node_id n, node_x n, node_y n, node_width n, node_height n, rank_of n)"

definition edge_ends :: "PositionedEdge \<Rightarrow> string \<times> string" where
  "edge_ends e = (edge_source e, edge_target e)"

definition timing_inputs ::
  "PositionedGraph \<Rightarrow> ResolvedAnimation \<Rightarrow>
   (string \<times> real \<times> real \<times> real \<times> real \<times> real) list \<times> (string \<times> string) list \<times>
   PositionedGroup list \<times> real \<times> real \<times> real \<times> real" where
  "timing_inputs graph opts =
     (map node_timing (graph_nodes graph), map edge_ends (graph_edges graph),
      graph_groups graph, duration opts, stagger opts, groupDelay opts, nodeOverlap opts)"

text \<open>A node with its absent rank written out as 0.\<close>

definition fill_rank :: "PositionedNode \<Rightarrow> PositionedNode" where
  "fill_rank node = (case node_rank node of None \<Rightarrow> node\<lparr>node_rank := Some 0\<rparr> | Some r \<Rightarrow> node)"

subsection \<open>Markup characters\<close>

text \<open>The characters that open or close a tag or an attribute value.\<close>

definition is_markup_char :: "char \<Rightarrow> bool" where
  "is_markup_char c = (c = CHR ''<'' \<or> c = CHR ''>'' \<or> c = CHR 0x22 \<or> c = CHR 0x27)"

definition markup_chars :: "string \<Rightarrow> string" where
  "markup_chars s = filter is_markup_char s"

section \<open>Example layouts and configurations\<close>

definition example_node :: "string \<Rightarrow> real \<Rightarrow> real \<Rightarrow> real option \<Rightarrow> PositionedNode" where
  "example_node nid x y rk =
     \<lparr> node_id = nid, node_label = nid, node_shape = Rectangle, node_x = x, node_y = y,
       node_width = 40, node_height = 20, node_inlineStyle = None, node_rank = rk \<rparr>"

definition example_edge :: "string \<Rightarrow> string \<Rightarrow> PositionedEdge" where
  "example_edge s t =
     \<lparr> edge_source = s, edge_target = t, edge_label = None, edge_style = Solid,
       edge_hasArrowStart = False, edge_hasArrowEnd = True, edge_points = [],
       edge_labelPosition = Some \<lparr> point_x = 0, point_y = 0 \<rparr>,
       edge_sourceRank = None, edge_targetRank = None \<rparr>"

text \<open>
  Two roots A and B (B without a rank) with an edge each into C, a group H around C
  inside a group G around everything, and a group K around B.
\<close>

definition fan_in_graph :: PositionedGraph where
  "fan_in_graph =
     \<lparr> graph_width = 200, graph_height = 200,
       graph_nodes = [example_node ''C'' 50 100 (Some 1), example_node ''A'' 0 0 (Some 0),
                      example_node ''B'' 100 0 None],
       graph_edges = [example_edge ''A'' ''C'', example_edge ''B'' ''C''],
       graph_groups = [PositionedGroup ''G'' ''Outer'' 0 0 200 200
                         [PositionedGroup ''H'' ''Inner'' 40 90 100 50 [] None] None,
                       PositionedGroup ''K'' ''Right'' 95 (- 5) 50 30 [] None] \<rparr>"

text \<open>One node with an edge to itself.\<close>

definition loop_graph :: PositionedGraph where
  "loop_graph =
     \<lparr> graph_width = 100, graph_height = 100,
       graph_nodes = [example_node ''A'' 0 0 (Some 0)],
       graph_edges = [example_edge ''A'' ''A''],
       graph_groups = [] \<rparr>"

text \<open>Two nodes of rank 0 and an edge from the left one to the right one.\<close>

definition same_rank_graph :: PositionedGraph where
  "same_rank_graph =
     \<lparr> graph_width = 200, graph_height = 100,
       graph_nodes = [example_node ''A'' 0 0 (Some 0), example_node ''B'' 100 0 (Some 0)],
       graph_edges = [example_edge ''A'' ''B''],
       graph_groups = [] \<rparr>"

text \<open>The values that the comments of AnimationOptions in types.ts give as defaults.\<close>

definition documented_options :: AnimationOptions where
  "documented_options =
     \<lparr> opt_duration = Some 600, opt_stagger = Some 80, opt_groupDelay = Some (- 60),
       opt_nodeOverlap = Some (3 / 10), opt_nodeEasing = None, opt_edgeEasing = None,
       opt_nodeAnimation = None, opt_edgeAnimation = None, opt_reducedMotion = None \<rparr>"

definition documented_opts :: ResolvedAnimation where
  "documented_opts = spread DEFAULTS documented_options"

definition out_of_range_options :: AnimationOptions where
  "out_of_range_options =
     \<lparr> opt_duration = Some (- 5), opt_stagger = None, opt_groupDelay = None,
       opt_nodeOverlap = Some 2, opt_nodeEasing = None, opt_edgeEasing = None,
       opt_nodeAnimation = None, opt_edgeAnimation = None, opt_reducedMotion = None \<rparr>"

definition negative_stagger_options :: AnimationOptions where
  "negative_stagger_options =
     \<lparr> opt_duration = None, opt_stagger = Some (- 80), opt_groupDelay = None,
       opt_nodeOverlap = None, opt_nodeEasing = None, opt_edgeEasing = None,
       opt_nodeAnimation = None, opt_edgeAnimation = None, opt_reducedMotion = None \<rparr>"

text \<open>
  A layout whose ranks run from top to bottom: A in rank 0 at the top, B and C in rank 1
  below it, B to the right of C and higher up than C.
\<close>

definition top_down_graph :: PositionedGraph where
  "top_down_graph =
     \<lparr> graph_width = 200, graph_height = 200,
       graph_nodes = [example_node ''A'' 50 0 (Some 0), example_node ''B'' 100 90 (Some 1),
                      example_node ''C'' 0 100 (Some 1)],
       graph_edges = [],
       graph_groups = [] \<rparr>"

text \<open>Two nodes with one id, in ranks 0 and 1, and no edge.\<close>

definition duplicate_id_graph :: PositionedGraph where
  "duplicate_id_graph =
     \<lparr> graph_width = 200, graph_height = 200,
       graph_nodes = [example_node ''A'' 0 0 (Some 0), example_node ''A'' 0 100 (Some 1)],
       graph_edges = [],
       graph_groups = [] \<rparr>"

text \<open>
  A rounding for the examples: to the nearest multiple of 1/8, a tie upwards. Its results
  are within 1/16 of the exact values.
\<close>

definition nearest_eighth :: "real \<Rightarrow> real" where
  "nearest_eighth x = real_of_int \<lfloor>8 * x + 1 / 2\<rfloor> / 8"

text \<open>
  A configuration whose duration 333.125 and overlap 0.625 have the product 208.203125,
  which is not a multiple of 1/8.
\<close>

definition eighths_opts :: ResolvedAnimation where
  "eighths_opts = DEFAULTS\<lparr>duration := 2665 / 8, groupDelay := - 208, nodeOverlap := 5 / 8\<rparr>"

text \<open>A number printer for the examples: the integer part, in decimal.\<close>

fun digits_nat :: "nat \<Rightarrow> nat \<Rightarrow> string" where
  "digits_nat 0 n = []"
| "digits_nat (Suc fuel) n =
     (if n < 10 then [] else digits_nat fuel (n div 10)) @ [''0123456789'' ! (n mod 10)]"

definition example_num :: "real \<Rightarrow> string" where
  "example_num r =
     (if r < 0 then ''-'' @ digits_nat 20 (nat \<lfloor>- r\<rfloor>) else digits_nat 20 (nat \<lfloor>r\<rfloor>))"

section \<open>Lemmas about the cascade\<close>

subsection \<open>Maps of arrays\<close>

lemma map_of_map_push:
  "map_of (map_push k v m) k' =
     (if k' = k then Some ((case map_of m k of None \<Rightarrow> [] | Some vs \<Rightarrow> vs) @ [v])
      else map_of m k')"
  by (induction k v m rule: map_push.induct) auto

lemma keys_map_push: "fst ` set (map_push k v m) = insert k (fst ` set m)"
  by (induction k v m rule: map_push.induct) auto

lemma distinct_map_push:
  "distinct (map fst m) \<Longrightarrow> distinct (map fst (map_push k v m))"
  by (induction k v m rule: map_push.induct) (auto simp: keys_map_push)

lemma map_of_foldl_push:
  "map_of (foldl (\<lambda>m x. map_push (key x) (val x) m) [] xs) k =
     (if k \<in> key ` set xs then Some (map val (filter (\<lambda>x. key x = k) xs)) else None)"
proof (induction xs rule: rev_induct)
  case Nil
  then show ?case by simp
next
  case (snoc x xs)
  show ?case
  proof (cases "key x = k")
    case True
    then show ?thesis
      using snoc by (cases "k \<in> key ` set xs") (auto simp: map_of_map_push filter_empty_conv image_iff)
  next
    case False
    then show ?thesis
      using snoc by (simp add: map_of_map_push)
  qed
qed

lemma keys_foldl_push:
  "fst ` set (foldl (\<lambda>m x. map_push (key x) (val x) m) [] xs) = key ` set xs"
  by (induction xs rule: rev_induct) (auto simp: keys_map_push)

lemma distinct_foldl_push:
  "distinct (map fst (foldl (\<lambda>m x. map_push (key x) (val x) m) [] xs))"
  by (induction xs rule: rev_induct) (auto simp: distinct_map_push)

lemma map_of_incomingEdges:
  "map_of (incomingEdges es) nid =
     (if incoming_of es nid = [] then None else Some (incoming_of es nid))"
  unfolding incomingEdges_def incoming_of_def
  using map_of_foldl_push [of "\<lambda>i. edge_target (es ! i)" "\<lambda>i. i" "[0..<length es]" nid]
  by (auto simp: filter_empty_conv)

lemma map_of_incomingEdges_Some:
  assumes "map_of (incomingEdges es) a = Some inc"
  shows "inc = incoming_of es a" and "inc \<noteq> []"
  using assms by (simp_all add: map_of_incomingEdges split: if_splits)

lemma node_delay_eq:
  "node_delay es opts edgs rank i node =
     (if incoming_of es (node_id node) = []
      then rank * stagger opts + real i * (stagger opts * (5 / 10))
      else latestEdgeEnd opts edgs (incoming_of es (node_id node))
             - duration opts * nodeOverlap opts + real i * (stagger opts * (5 / 10)))"
  by (simp add: node_delay_def map_of_incomingEdges Let_def)

subsection \<open>Buckets and ranks\<close>

lemma bucket_of_eq:
  "bucket_of ns r = sort_key node_x (filter (\<lambda>n. rank_of n = r) ns)"
proof -
  let ?m = "foldl (\<lambda>m node. map_push (rank_of node) node m) [] ns"
  have "map_of (rankBuckets ns) r = map_option (sort_key node_x) (map_of ?m r)"
    unfolding rankBuckets_def by (simp add: map_of_map)
  moreover have "map_of ?m r =
      (if r \<in> rank_of ` set ns then Some (filter (\<lambda>n. rank_of n = r) ns) else None)"
    using map_of_foldl_push [of rank_of "\<lambda>n. n" ns r] by simp
  moreover have "r \<notin> rank_of ` set ns \<Longrightarrow> filter (\<lambda>n. rank_of n = r) ns = []"
    by (auto simp: filter_empty_conv)
  ultimately show ?thesis
    by (auto simp: bucket_of_def)
qed

lemma rankBuckets_keys: "map fst (rankBuckets ns) =
   map fst (foldl (\<lambda>m node. map_push (rank_of node) node m) [] ns)"
  unfolding rankBuckets_def by (simp add: case_prod_unfold comp_def)

lemma set_sortedRanks: "set (sortedRanks ns) = rank_of ` set ns"
  unfolding sortedRanks_def rankBuckets_keys
  using keys_foldl_push [of rank_of "\<lambda>n. n" ns] by simp

lemma distinct_sortedRanks: "distinct (sortedRanks ns)"
  unfolding sortedRanks_def rankBuckets_keys
  using distinct_foldl_push [of rank_of "\<lambda>n. n" ns] by simp

lemma sorted_sortedRanks: "sorted (sortedRanks ns)"
  unfolding sortedRanks_def by simp

subsection \<open>The nested loops as one loop\<close>

lemma run_items_Nil [simp]: "run_items es opts st [] = st"
  by (simp add: run_items_def)

lemma run_items_Cons [simp]:
  "run_items es opts st ((rank, item) # items) =
     run_items es opts (process_node es opts rank st item) items"
  by (simp add: run_items_def)

lemma run_items_append:
  "run_items es opts st (xs @ ys) = run_items es opts (run_items es opts st xs) ys"
  by (simp add: run_items_def)

lemma run_items_bucket:
  "run_items es opts st (map (Pair rank) b) = foldl (process_node es opts rank) st b"
  by (induction b arbitrary: st) simp_all

lemma foldl_process_rank:
  "foldl (process_rank graph opts) st rs =
     run_items (graph_edges graph) opts st
       (concat (map (\<lambda>rank. map (Pair rank) (enumerate 0 (bucket_of (graph_nodes graph) rank))) rs))"
  by (induction rs arbitrary: st)
     (simp_all add: run_items_append run_items_bucket process_rank_def)

lemma cascade_eq_run_items:
  "cascade graph opts =
     run_items (graph_edges graph) opts (Map.empty, Map.empty)
       (schedule_items (graph_nodes graph))"
  by (simp add: cascade_def schedule_items_def foldl_process_rank)

subsection \<open>The processing order\<close>

lemma schedule_items_member:
  "(r, i, n) \<in> set (schedule_items ns) \<longleftrightarrow>
     r \<in> rank_of ` set ns \<and> i < length (bucket_of ns r) \<and> bucket_of ns r ! i = n"
proof -
  have "(r, i, n) \<in> set (schedule_items ns) \<longleftrightarrow>
        (\<exists>rank \<in> set (sortedRanks ns). (r, i, n) \<in> Pair rank ` set (enumerate 0 (bucket_of ns rank)))"
    by (simp add: schedule_items_def)
  also have "\<dots> \<longleftrightarrow> r \<in> set (sortedRanks ns) \<and> (i, n) \<in> set (enumerate 0 (bucket_of ns r))"
    by auto
  finally show ?thesis
    by (simp add: set_sortedRanks in_set_enumerate_eq)
qed

lemma bucket_member: "n \<in> set (bucket_of ns r) \<longleftrightarrow> n \<in> set ns \<and> rank_of n = r"
  by (auto simp: bucket_of_eq)

lemma schedule_items_rank:
  assumes "(r, i, n) \<in> set (schedule_items ns)"
  shows "r = rank_of n" and "n \<in> set ns"
proof -
  from assms have "i < length (bucket_of ns r)" "bucket_of ns r ! i = n"
    by (simp_all add: schedule_items_member)
  then have "n \<in> set (bucket_of ns r)"
    using nth_mem by blast
  then show "r = rank_of n" and "n \<in> set ns"
    by (simp_all add: bucket_member)
qed

lemma mset_concat_buckets:
  "distinct rs \<Longrightarrow> rank_of ` set ns \<subseteq> set rs \<Longrightarrow>
   mset (concat (map (\<lambda>r. filter (\<lambda>n. rank_of n = r) ns) rs)) = mset ns"
proof (induction rs arbitrary: ns)
  case Nil
  then show ?case by simp
next
  case (Cons r rs)
  let ?rest = "filter (\<lambda>n. rank_of n \<noteq> r) ns"
  have eq: "map (\<lambda>r'. filter (\<lambda>n. rank_of n = r') ns) rs =
            map (\<lambda>r'. filter (\<lambda>n. rank_of n = r') ?rest) rs"
  proof (rule map_cong [OF refl])
    fix r' assume "r' \<in> set rs"
    with Cons.prems(1) have "r' \<noteq> r" by auto
    then show "filter (\<lambda>n. rank_of n = r') ns = filter (\<lambda>n. rank_of n = r') ?rest"
      by (auto intro: filter_cong)
  qed
  have "rank_of ` set ?rest \<subseteq> set rs"
    using Cons.prems(2) by auto
  with Cons.IH [of ?rest] Cons.prems(1)
  have "mset (concat (map (\<lambda>r'. filter (\<lambda>n. rank_of n = r') ?rest) rs)) = mset ?rest"
    by simp
  then have "mset (concat (map (\<lambda>r'. filter (\<lambda>n. rank_of n = r') ns) rs)) = mset ?rest"
    by (simp only: eq)
  moreover have "mset (filter (\<lambda>n. rank_of n = r) ns) + mset ?rest = mset ns"
    by (induction ns) simp_all
  ultimately show ?case
    by simp
qed

lemma processing_order_eq:
  "processing_order ns = concat (map (bucket_of ns) (sortedRanks ns))"
  by (simp add: processing_order_def schedule_items_def map_concat comp_def
      case_prod_unfold map_snd_enumerate)

lemma mset_processing_order: "mset (processing_order ns) = mset ns"
proof -
  have "mset (concat (map (bucket_of ns) (sortedRanks ns))) =
        mset (concat (map (\<lambda>r. filter (\<lambda>n. rank_of n = r) ns) (sortedRanks ns)))"
    by (simp add: mset_concat bucket_of_eq comp_def)
  then show ?thesis
    by (simp add: processing_order_eq mset_concat_buckets distinct_sortedRanks set_sortedRanks)
qed

subsection \<open>One iteration\<close>

lemma foldl_cond_upd:
  "foldl (\<lambda>m ei. if P ei then m(ei \<mapsto> v) else m) edgs xs ei =
     (if ei \<in> set xs \<and> P ei then Some v else edgs ei)"
  by (induction xs arbitrary: edgs) auto

lemma set_outgoing_apply:
  "set_outgoing es a v edgs ei =
     (if ei < length es \<and> edge_source (es ! ei) = a then Some v else edgs ei)"
  unfolding set_outgoing_def
  using foldl_cond_upd [of "\<lambda>ei. edge_source (es ! ei) = a" v edgs "[0..<length es]" ei]
  by simp

lemma fst_process_node:
  "fst (process_node es opts r st (i, n)) =
     (fst st)(node_id n \<mapsto> node_delay es opts (snd st) r i n)"
  by (simp add: process_node_def Let_def split: prod.splits)

lemma snd_process_node:
  "snd (process_node es opts r st (i, n)) ei =
     (if ei < length es \<and> edge_source (es ! ei) = node_id n
      then Some (node_delay es opts (snd st) r i n + duration opts)
      else snd st ei)"
  by (simp add: process_node_def Let_def set_outgoing_apply split: prod.splits)

lemma item_ids_simps [simp]:
  "item_ids [] = {}"
  "item_ids ((r, i, n) # items) = insert (node_id n) (item_ids items)"
  "item_ids (xs @ ys) = item_ids xs \<union> item_ids ys"
  by (simp_all add: item_ids_def)

subsection \<open>What later iterations leave unchanged\<close>

lemma run_items_nodes_untouched:
  "a \<notin> item_ids items \<Longrightarrow> fst (run_items es opts st items) a = fst st a"
proof (induction items arbitrary: st)
  case Nil
  then show ?case by simp
next
  case (Cons it items)
  obtain r i n where it: "it = (r, i, n)" by (cases it)
  with Cons show ?case
    by (simp add: fst_process_node)
qed

lemma run_items_edges_untouched:
  "edge_source (es ! ei) \<notin> item_ids items \<Longrightarrow>
   snd (run_items es opts st items) ei = snd st ei"
proof (induction items arbitrary: st)
  case Nil
  then show ?case by simp
next
  case (Cons it items)
  obtain r i n where it: "it = (r, i, n)" by (cases it)
  with Cons show ?case
    by (simp add: snd_process_node)
qed

lemma run_items_dom:
  "dom (fst (run_items es opts st items)) = dom (fst st) \<union> item_ids items"
proof (induction items arbitrary: st)
  case Nil
  then show ?case by simp
next
  case (Cons it items)
  obtain r i n where it: "it = (r, i, n)" by (cases it)
  have "dom (fst (process_node es opts r st (i, n))) = insert (node_id n) (dom (fst st))"
    unfolding fst_process_node by simp
  with Cons.IH [of "process_node es opts r st (i, n)"] show ?case
    by (simp add: it)
qed

subsection \<open>The invariant of the edge delays\<close>

lemma process_node_follow:
  assumes "edges_follow es opts P st"
  shows "edges_follow es opts (insert (node_id n) P) (process_node es opts r st (i, n))"
  using assms unfolding edges_follow_def
  by (auto simp: fst_process_node snd_process_node)

lemma run_items_follow:
  "edges_follow es opts P st \<Longrightarrow>
   edges_follow es opts (P \<union> item_ids items) (run_items es opts st items)"
proof (induction items arbitrary: st P)
  case Nil
  then show ?case by simp
next
  case (Cons it items)
  obtain r i n where it: "it = (r, i, n)" by (cases it)
  from Cons.prems have "edges_follow es opts (insert (node_id n) P) (process_node es opts r st (i, n))"
    by (rule process_node_follow)
  from Cons.IH [OF this] show ?case
    by (simp add: it)
qed

lemma item_ids_schedule: "item_ids (schedule_items ns) = node_id ` set ns"
proof -
  have "item_ids (schedule_items ns) = node_id ` set (processing_order ns)"
    by (simp add: item_ids_def processing_order_def case_prod_unfold comp_def image_image)
  also have "set (processing_order ns) = set ns"
    using mset_processing_order [of ns] by (rule mset_eq_setD)
  finally show ?thesis .
qed

lemma cascade_follow:
  "edges_follow (graph_edges graph) opts (node_id ` set (graph_nodes graph)) (cascade graph opts)"
proof -
  have "edges_follow (graph_edges graph) opts {} (Map.empty, Map.empty)"
    by (simp add: edges_follow_def)
  from run_items_follow [OF this, of "schedule_items (graph_nodes graph)"]
  show ?thesis
    by (simp add: cascade_eq_run_items item_ids_schedule)
qed

lemma nodes_computeDelays: "nodes (computeDelays graph opts) = fst (cascade graph opts)"
  by (simp add: computeDelays_def split: prod.splits)

lemma edges_computeDelays: "edges (computeDelays graph opts) = snd (cascade graph opts)"
  by (simp add: computeDelays_def split: prod.splits)

lemma groups_computeDelays:
  "groups (computeDelays graph opts) =
     collectGroupDelays (graph_groups graph) (graph_nodes graph) opts
       (nodes (computeDelays graph opts)) Map.empty"
  by (simp add: computeDelays_def split: prod.splits)

subsection \<open>The delay a node receives\<close>

lemma run_items_at:
  assumes "node_id n \<notin> item_ids zs"
  shows "fst (run_items es opts st (ys @ (r, i, n) # zs)) (node_id n) =
           Some (node_delay es opts (snd (run_items es opts st ys)) r i n)"
  using assms
  by (simp add: run_items_append run_items_nodes_untouched fst_process_node)

lemma distinct_schedule_items:
  assumes "distinct (map node_id ns)"
  shows "distinct (map (\<lambda>item. node_id (snd (snd item))) (schedule_items ns))"
proof -
  have "map (\<lambda>item. node_id (snd (snd item))) (schedule_items ns) =
        map node_id (processing_order ns)"
    by (simp add: processing_order_def case_prod_unfold comp_def)
  moreover have "mset (map node_id (processing_order ns)) = mset (map node_id ns)"
    using mset_processing_order [of ns] by (metis mset_map)
  ultimately show ?thesis
    using assms mset_eq_imp_distinct_iff by metis
qed

lemma schedule_items_split:
  assumes "distinct (map node_id ns)" and "(r, i, n) \<in> set (schedule_items ns)"
  obtains ys zs where "schedule_items ns = ys @ (r, i, n) # zs"
    and "node_id n \<notin> item_ids ys" and "node_id n \<notin> item_ids zs"
proof -
  from assms(2) obtain ys zs where split: "schedule_items ns = ys @ (r, i, n) # zs"
    by (meson split_list)
  from distinct_schedule_items [OF assms(1)] have
    "node_id n \<notin> item_ids ys" "node_id n \<notin> item_ids zs"
    unfolding split item_ids_def by auto
  with split show ?thesis by (rule that)
qed

lemma incoming_of_empty_iff:
  "incoming_of es a = [] \<longleftrightarrow> a \<notin> edge_target ` set es"
proof -
  have "incoming_of es a = [] \<longleftrightarrow> (\<forall>i<length es. edge_target (es ! i) \<noteq> a)"
    by (auto simp: incoming_of_def filter_empty_conv)
  also have "\<dots> \<longleftrightarrow> (\<forall>e \<in> set es. edge_target e \<noteq> a)"
    by (metis in_set_conv_nth)
  also have "\<dots> \<longleftrightarrow> a \<notin> edge_target ` set es"
    by blast
  finally show ?thesis .
qed

lemma set_incoming_of:
  "set (incoming_of es a) = {ei. ei < length es \<and> edge_target (es ! ei) = a}"
  by (auto simp: incoming_of_def)

lemma bucket_index:
  assumes "n \<in> set ns"
  obtains i where "i < length (bucket_of ns (rank_of n))" and "bucket_of ns (rank_of n) ! i = n"
  using assms bucket_member [of n ns "rank_of n"] by (auto simp: in_set_conv_nth)

lemma cascade_root_delay:
  assumes "distinct (map node_id (graph_nodes graph))"
      and "i < length (bucket_of (graph_nodes graph) (rank_of n))"
      and "bucket_of (graph_nodes graph) (rank_of n) ! i = n"
      and "node_id n \<notin> edge_target ` set (graph_edges graph)"
  shows "fst (cascade graph opts) (node_id n) =
           Some (rank_of n * stagger opts + real i * (stagger opts * (5 / 10)))"
proof -
  from assms(2,3) have "n \<in> set (bucket_of (graph_nodes graph) (rank_of n))"
    using nth_mem by fastforce
  then have "n \<in> set (graph_nodes graph)"
    by (simp add: bucket_member)
  with assms(2,3) have "(rank_of n, i, n) \<in> set (schedule_items (graph_nodes graph))"
    by (simp add: schedule_items_member)
  with assms(1) obtain ys zs where
    "schedule_items (graph_nodes graph) = ys @ (rank_of n, i, n) # zs" "node_id n \<notin> item_ids zs"
    by (rule schedule_items_split)
  then show ?thesis
    using assms(4)
    by (simp add: cascade_eq_run_items run_items_at node_delay_eq incoming_of_empty_iff)
qed

lemma sorted_map_const:
  "(\<And>x. x \<in> set xs \<Longrightarrow> f x = c) \<Longrightarrow> sorted (map f xs)"
  by (induction xs) auto

lemma sorted_concat_buckets:
  "sorted rs \<Longrightarrow> sorted (map rank_of (concat (map (bucket_of ns) rs)))"
proof (induction rs)
  case Nil
  then show ?case by simp
next
  case (Cons r rs)
  have "sorted (map rank_of (bucket_of ns r))"
    by (rule sorted_map_const [where c = r]) (simp add: bucket_member)
  with Cons show ?case
    by (auto simp: sorted_append bucket_member)
qed

lemma sorted_processing_order: "sorted (map rank_of (processing_order ns))"
  by (simp add: processing_order_eq sorted_concat_buckets sorted_sortedRanks)

lemma sortedRanks_eq: "sortedRanks ns = sort (remdups (map rank_of ns))"
  by (rule sorted_distinct_set_unique)
     (simp_all add: sorted_sortedRanks distinct_sortedRanks set_sortedRanks)

lemma schedule_items_eq:
  "schedule_items ns =
     concat (map (\<lambda>r. map (Pair r)
                          (enumerate 0 (sort_key node_x (filter (\<lambda>m. rank_of m = r) ns))))
               (sort (remdups (map rank_of ns))))"
  by (simp add: schedule_items_def sortedRanks_eq bucket_of_eq)

lemma sorted_schedule_ranks: "sorted (map fst (schedule_items ns))"
proof -
  have "map fst (schedule_items ns) = map rank_of (processing_order ns)"
    unfolding processing_order_def map_map
  proof (rule map_cong [OF refl])
    fix item assume "item \<in> set (schedule_items ns)"
    moreover obtain r i n where "item = (r, i, n)" by (cases item)
    ultimately show "fst item = (rank_of \<circ> (\<lambda>(rank, i, node). node)) item"
      using schedule_items_rank(1) [of r i n ns] by simp
  qed
  then show ?thesis
    by (simp add: sorted_processing_order)
qed

subsection \<open>The nodes processed before a node\<close>

lemma sorted_distinct_split:
  fixes r :: real
  shows "sorted rs \<Longrightarrow> distinct rs \<Longrightarrow> r \<in> set rs \<Longrightarrow>
         rs = filter (\<lambda>x. x < r) rs @ r # filter (\<lambda>x. r < x) rs"
proof (induction rs)
  case Nil
  then show ?case by simp
next
  case (Cons a rs)
  show ?case
  proof (cases "a = r")
    case True
    with Cons.prems have "\<forall>x \<in> set rs. r < x"
      by (auto simp: less_le)
    then have "filter (\<lambda>x. x < r) rs = []" "filter (\<lambda>x. r < x) rs = rs"
      by (auto simp: filter_empty_conv filter_id_conv)
    with True show ?thesis by simp
  next
    case False
    with Cons.prems have "r \<in> set rs" "a < r"
      by (auto simp: less_le)
    with Cons show ?thesis by simp
  qed
qed

lemma distinct_map_before:
  assumes "distinct (map f (xs @ y # zs))" and "x \<in> set xs"
  shows "f x \<noteq> f y"
proof
  assume "f x = f y"
  with assms(2) have "f y \<in> f ` set xs"
    by (metis imageI)
  with assms(1) show False
    by simp
qed

lemma processed_before_eq:
  assumes ids: "distinct (map node_id ns)"
      and idx: "i < length (bucket_of ns (rank_of n))" "bucket_of ns (rank_of n) ! i = n"
  shows "processed_before ns n =
           concat (map (bucket_of ns) (filter (\<lambda>r. r < rank_of n) (sortedRanks ns)))
             @ take i (bucket_of ns (rank_of n))"
proof -
  let ?r = "rank_of n" and ?rs = "sortedRanks ns"
  let ?b = "bucket_of ns (rank_of n)"
  let ?pre = "concat (map (bucket_of ns) (filter (\<lambda>r. r < ?r) ?rs)) @ take i ?b"
  let ?post = "drop (Suc i) ?b @ concat (map (bucket_of ns) (filter (\<lambda>r. ?r < r) ?rs))"
  from idx have "n \<in> set ?b"
    using nth_mem by fastforce
  then have "?r \<in> set ?rs"
    by (simp add: bucket_member set_sortedRanks)
  then have "?rs = filter (\<lambda>x. x < ?r) ?rs @ ?r # filter (\<lambda>x. ?r < x) ?rs"
    by (intro sorted_distinct_split sorted_sortedRanks distinct_sortedRanks)
  then have "processing_order ns =
      concat (map (bucket_of ns) (filter (\<lambda>x. x < ?r) ?rs @ ?r # filter (\<lambda>x. ?r < x) ?rs))"
    by (simp only: processing_order_eq)
  moreover have "?b = take i ?b @ n # drop (Suc i) ?b"
    using id_take_nth_drop [OF idx(1)] idx(2) by simp
  ultimately have order: "processing_order ns = ?pre @ n # ?post"
    by (simp del: bucket_of_eq)
  have "distinct (map node_id (processing_order ns))"
    using ids mset_processing_order [of ns] by (metis mset_eq_imp_distinct_iff mset_map)
  then have "\<And>m. m \<in> set ?pre \<Longrightarrow> node_id m \<noteq> node_id n"
    unfolding order by (rule distinct_map_before)
  then have "takeWhile (\<lambda>m. node_id m \<noteq> node_id n) (?pre @ n # ?post) =
             ?pre @ takeWhile (\<lambda>m. node_id m \<noteq> node_id n) (n # ?post)"
    by (rule takeWhile_append2)
  then show ?thesis
    by (simp add: processed_before_def order)
qed

lemma processed_before_split:
  assumes "schedule_items ns = ys @ (r, i, n) # zs" and "node_id n \<notin> item_ids ys"
  shows "node_id ` set (processed_before ns n) = item_ids ys"
proof -
  let ?f = "\<lambda>item :: real \<times> nat \<times> PositionedNode. snd (snd item)"
  have "processing_order ns = map ?f ys @ n # map ?f zs"
    by (simp add: processing_order_def assms(1) case_prod_unfold)
  moreover have "item_ids ys = node_id ` set (map ?f ys)"
    by (simp add: item_ids_def image_image)
  with assms(2) have "\<And>m. m \<in> set (map ?f ys) \<Longrightarrow> node_id m \<noteq> node_id n"
    by (metis imageI)
  then have "takeWhile (\<lambda>m. node_id m \<noteq> node_id n) (map ?f ys @ n # map ?f zs) =
             map ?f ys @ takeWhile (\<lambda>m. node_id m \<noteq> node_id n) (n # map ?f zs)"
    by (rule takeWhile_append2)
  ultimately have "processed_before ns n = map ?f ys"
    by (simp add: processed_before_def)
  then show ?thesis
    by (simp add: item_ids_def image_image)
qed

lemma lower_rank_processed_before:
  assumes "distinct (map node_id ns)" and "n \<in> set ns" and "m \<in> set ns"
      and "rank_of m < rank_of n"
  shows "m \<in> set (processed_before ns n)"
proof -
  from assms(2) obtain i where "i < length (bucket_of ns (rank_of n))"
      "bucket_of ns (rank_of n) ! i = n"
    by (rule bucket_index)
  from processed_before_eq [OF assms(1) this] assms(3,4) show ?thesis
    by (auto simp: bucket_member set_sortedRanks)
qed

lemma same_rank_processed_before:
  assumes "distinct (map node_id ns)"
      and "i < length (bucket_of ns (rank_of n))" "bucket_of ns (rank_of n) ! i = n"
      and "j < i"
  shows "bucket_of ns (rank_of n) ! j \<in> set (processed_before ns n)"
proof -
  from assms(2,4) have "bucket_of ns (rank_of n) ! j \<in> set (take i (bucket_of ns (rank_of n)))"
    by (metis in_set_conv_nth length_take less_imp_le_nat less_trans min.absorb2 nth_take)
  with processed_before_eq [OF assms(1-3)] show ?thesis
    by simp
qed

subsection \<open>The latest end of the incoming edges\<close>

lemma latestEdgeEnd_cong:
  "(\<And>ei. ei \<in> set inc \<Longrightarrow> E ei = E' ei) \<Longrightarrow> latestEdgeEnd opts E inc = latestEdgeEnd opts E' inc"
  unfolding latestEdgeEnd_def edge_delay_or_0_def
  by (rule foldl_cong) simp_all

lemma foldl_max_Max:
  fixes f :: "'a \<Rightarrow> real"
  shows "foldl (\<lambda>a x. max a (f x)) a0 xs = Max (insert a0 (f ` set xs))"
proof (induction xs arbitrary: a0)
  case Nil
  then show ?case by simp
next
  case (Cons x xs)
  have "Max (insert (max a0 (f x)) (f ` set xs)) = Max (insert a0 (insert (f x) (f ` set xs)))"
    by (cases "set xs = {}") (simp_all add: max.assoc)
  with Cons show ?case by simp
qed

lemma latestEdgeEnd_Max:
  "latestEdgeEnd opts E inc =
     Max (insert 0 ((\<lambda>ei. edge_delay_or_0 E ei + duration opts) ` set inc))"
  unfolding latestEdgeEnd_def by (rule foldl_max_Max)

subsection \<open>Delays that are not negative\<close>

lemma nonneg_map_empty [simp]: "nonneg_map Map.empty"
  by (simp add: nonneg_map_def)

lemma nonneg_map_upd: "nonneg_map m \<Longrightarrow> 0 \<le> v \<Longrightarrow> nonneg_map (m(k \<mapsto> v))"
  by (simp add: nonneg_map_def)

lemma edge_delay_or_0_nonneg: "nonneg_map E \<Longrightarrow> 0 \<le> edge_delay_or_0 E ei"
  by (auto simp: nonneg_map_def edge_delay_or_0_def split: option.splits)

lemma latestEdgeEnd_ge_duration:
  assumes "nonneg_map E" and "inc \<noteq> []"
  shows "duration opts \<le> latestEdgeEnd opts E inc"
proof -
  from assms(2) obtain ei where mem: "ei \<in> set inc"
    by (cases inc) auto
  let ?f = "\<lambda>ei. edge_delay_or_0 E ei + duration opts"
  have "?f ei \<le> Max (insert 0 (?f ` set inc))"
    using mem by (intro Max_ge) simp_all
  moreover have "0 \<le> edge_delay_or_0 E ei"
    using assms(1) by (rule edge_delay_or_0_nonneg)
  ultimately show ?thesis
    by (simp add: latestEdgeEnd_Max)
qed

lemma node_delay_nonneg:
  assumes "0 \<le> duration opts" "0 \<le> stagger opts" "nodeOverlap opts \<le> 1"
      and "0 \<le> r" and "nonneg_map E"
  shows "0 \<le> node_delay es opts E r i n"
proof (cases "incoming_of es (node_id n) = []")
  case True
  then show ?thesis
    using assms(2,4) by (simp add: node_delay_eq)
next
  case False
  define L where "L = latestEdgeEnd opts E (incoming_of es (node_id n))"
  have "duration opts \<le> L"
    unfolding L_def using assms(5) False by (rule latestEdgeEnd_ge_duration)
  moreover have "duration opts * nodeOverlap opts \<le> duration opts * 1"
    using assms(1,3) by (intro mult_left_mono) simp_all
  moreover have "0 \<le> real i * (stagger opts * (5 / 10))"
    using assms(2) by simp
  ultimately have "0 \<le> L - duration opts * nodeOverlap opts + real i * (stagger opts * (5 / 10))"
    by simp
  with False show ?thesis
    by (simp add: node_delay_eq L_def)
qed

lemma process_node_nonneg:
  assumes "0 \<le> duration opts" "0 \<le> stagger opts" "nodeOverlap opts \<le> 1"
      and "0 \<le> r" and "nonneg_map (fst st)" and "nonneg_map (snd st)"
  shows "nonneg_map (fst (process_node es opts r st (i, n))) \<and>
         nonneg_map (snd (process_node es opts r st (i, n)))"
proof -
  have nd: "0 \<le> node_delay es opts (snd st) r i n"
    using assms(1-4,6) by (rule node_delay_nonneg)
  with assms(5) have "nonneg_map (fst (process_node es opts r st (i, n)))"
    by (simp add: fst_process_node nonneg_map_upd)
  moreover have "nonneg_map (snd (process_node es opts r st (i, n)))"
    using nd assms(1,6) unfolding nonneg_map_def
    by (auto simp: snd_process_node split: if_splits)
  ultimately show ?thesis ..
qed

lemma run_items_nonneg:
  assumes "0 \<le> duration opts" "0 \<le> stagger opts" "nodeOverlap opts \<le> 1"
  shows "(\<And>item. item \<in> set items \<Longrightarrow> 0 \<le> fst item) \<Longrightarrow>
         nonneg_map (fst st) \<Longrightarrow> nonneg_map (snd st) \<Longrightarrow>
         nonneg_map (fst (run_items es opts st items)) \<and>
         nonneg_map (snd (run_items es opts st items))"
proof (induction items arbitrary: st)
  case Nil
  then show ?case by simp
next
  case (Cons it items)
  obtain r i n where it: "it = (r, i, n)" by (cases it)
  with Cons.prems(1) [of it] have "0 \<le> r" by simp
  from process_node_nonneg [OF assms this Cons.prems(2,3), of es i n]
  have "nonneg_map (fst (process_node es opts r st (i, n)))"
       "nonneg_map (snd (process_node es opts r st (i, n)))"
    by simp_all
  with Cons.IH [of "process_node es opts r st (i, n)"] Cons.prems(1) show ?case
    by (simp add: it)
qed

lemma cascade_nonneg:
  assumes "0 \<le> duration opts" "0 \<le> stagger opts" "nodeOverlap opts \<le> 1"
      and "\<And>n. n \<in> set (graph_nodes graph) \<Longrightarrow> 0 \<le> rank_of n"
  shows "nonneg_map (fst (cascade graph opts)) \<and> nonneg_map (snd (cascade graph opts))"
proof -
  have "0 \<le> fst item" if "item \<in> set (schedule_items (graph_nodes graph))" for item
  proof -
    obtain r i n where it: "item = (r, i, n)" by (cases item)
    with that schedule_items_rank [of r i n "graph_nodes graph"] assms(4) show ?thesis
      by auto
  qed
  from run_items_nonneg [OF assms(1-3) this, of "schedule_items (graph_nodes graph)" "(Map.empty, Map.empty)"]
  show ?thesis
    by (simp add: cascade_eq_run_items)
qed

subsection \<open>Group delays\<close>

lemma set_group_delays_Nil:
  "set_group_delays ns opts nd out [] = out"
  by (simp add: set_group_delays_def)

lemma set_group_delays_Cons:
  "set_group_delays ns opts nd out (g # gs) =
     set_group_delays ns opts nd (out(group_id g \<mapsto> group_delay ns opts nd g)) gs"
  by (simp add: set_group_delays_def)

lemma set_group_delays_append:
  "set_group_delays ns opts nd out (xs @ ys) =
     set_group_delays ns opts nd (set_group_delays ns opts nd out xs) ys"
  by (simp add: set_group_delays_def)

lemma collectGroupDelays_eq:
  "collectGroupDelays gs allNodes opts nodeDelays out =
     set_group_delays allNodes opts nodeDelays out (all_groups gs)"
proof (induction gs allNodes opts nodeDelays out rule: collectGroupDelays.induct)
  case (1 allNodes opts nodeDelays out)
  show ?case
    by (simp only: collectGroupDelays.simps all_groups.simps set_group_delays_Nil)
next
  case (2 gid lbl gx gy gw gh children rk gs allNodes opts nodeDelays out)
  let ?g = "PositionedGroup gid lbl gx gy gw gh children rk"
  let ?inner = "collectGroupDelays children allNodes opts nodeDelays out"
  have "collectGroupDelays (?g # gs) allNodes opts nodeDelays out =
        collectGroupDelays gs allNodes opts nodeDelays
          (?inner(gid \<mapsto> group_delay allNodes opts nodeDelays ?g))"
    by (simp only: collectGroupDelays.simps)
  also have "\<dots> = set_group_delays allNodes opts nodeDelays
          (?inner(gid \<mapsto> group_delay allNodes opts nodeDelays ?g)) (all_groups gs)"
    by (rule "2.IH"(2))
  also have "\<dots> = set_group_delays allNodes opts nodeDelays out (all_groups (?g # gs))"
    by (simp only: "2.IH"(1) all_groups.simps set_group_delays_append
        set_group_delays_Cons PositionedGroup.sel)
  finally show ?case .
qed

lemma set_group_delays_untouched:
  "a \<notin> group_id ` set gs \<Longrightarrow> set_group_delays ns opts nd out gs a = out a"
  by (induction gs arbitrary: out) (simp_all add: set_group_delays_def)

lemma set_group_delays_at:
  "distinct (map group_id gs) \<Longrightarrow> g \<in> set gs \<Longrightarrow>
   set_group_delays ns opts nd out gs (group_id g) = Some (group_delay ns opts nd g)"
proof (induction gs arbitrary: out)
  case Nil
  then show ?case by simp
next
  case (Cons h gs)
  show ?case
  proof (cases "g \<in> set gs")
    case True
    with Cons show ?thesis
      by (simp add: set_group_delays_def)
  next
    case False
    with Cons.prems have "g = h" and "group_id h \<notin> group_id ` set gs"
      by auto
    then show ?thesis
      using set_group_delays_untouched [of "group_id h" gs ns opts nd]
      by (simp add: set_group_delays_def)
  qed
qed

lemma set_group_delays_nonneg:
  "(\<And>g. g \<in> set gs \<Longrightarrow> 0 \<le> group_delay ns opts nd g) \<Longrightarrow> nonneg_map out \<Longrightarrow>
   nonneg_map (set_group_delays ns opts nd out gs)"
proof (induction gs arbitrary: out)
  case Nil
  then show ?case by (simp only: set_group_delays_Nil)
next
  case (Cons h gs)
  have "0 \<le> group_delay ns opts nd h"
    by (rule Cons.prems(1)) simp
  with Cons.prems(2) have "nonneg_map (out(group_id h \<mapsto> group_delay ns opts nd h))"
    by (rule nonneg_map_upd)
  moreover have "\<And>g. g \<in> set gs \<Longrightarrow> 0 \<le> group_delay ns opts nd g"
    by (rule Cons.prems(1)) simp
  ultimately have "nonneg_map (set_group_delays ns opts nd
      (out(group_id h \<mapsto> group_delay ns opts nd h)) gs)"
    by (intro Cons.IH)
  then show ?case
    by (simp only: set_group_delays_Cons)
qed

lemma group_maxDelay_foldl:
  "foldl (\<lambda>maxDelay node.
            case nd (node_id node) of
              None \<Rightarrow> maxDelay
            | Some d \<Rightarrow>
                if inside_group node g then (if d > maxDelay then d else maxDelay)
                else maxDelay) a ns =
   foldl (\<lambda>a d. max a d) a (contained_delays ns nd g)"
  by (induction ns arbitrary: a)
     (auto simp: contained_delays_def max_def split: option.splits)

lemma group_maxDelay_Max:
  "group_maxDelay ns nd g = Max (insert 0 (set (contained_delays ns nd g)))"
  unfolding group_maxDelay_def group_maxDelay_foldl
  using foldl_max_Max [of "\<lambda>d. d" 0 "contained_delays ns nd g"] by simp

lemma set_contained_delays:
  "set (contained_delays ns nd g) =
     {d. \<exists>n \<in> set ns. inside_group n g \<and> nd (node_id n) = Some d}"
  by (auto simp: contained_delays_def split: if_splits option.splits)

subsection \<open>Rounded arithmetic\<close>

lemma rounding_nonneg: "rounding u eta fl \<Longrightarrow> 0 \<le> x \<Longrightarrow> 0 \<le> fl x"
  unfolding rounding_def using monoD [of fl 0 x] by auto

lemma rounding_lower: "rounding u eta fl \<Longrightarrow> x - (u * \<bar>x\<bar> + eta) \<le> fl x"
  unfolding rounding_def
  by (metis abs_le_iff diff_le_eq le_diff_eq minus_diff_eq add.commute)

lemma rounding_upper: "rounding u eta fl \<Longrightarrow> fl x \<le> x + (u * \<bar>x\<bar> + eta)"
  unfolding rounding_def
  by (metis abs_le_iff diff_le_eq add.commute)

lemma rounding_identity: "0 \<le> u \<Longrightarrow> 0 \<le> eta \<Longrightarrow> rounding u eta (\<lambda>x. x)"
  by (simp add: rounding_def mono_def)

lemma rounding_nearest_eighth: "rounding 0 (1 / 16) nearest_eighth"
proof -
  have "mono nearest_eighth"
    by (auto simp: mono_def nearest_eighth_def divide_right_mono floor_mono)
  moreover have "nearest_eighth 0 = 0"
    by (simp add: nearest_eighth_def)
  moreover have "\<bar>nearest_eighth x - x\<bar> \<le> 1 / 16" for x
  proof -
    define k where "k = \<lfloor>8 * x + 1 / 2\<rfloor>"
    have "real_of_int k \<le> 8 * x + 1 / 2" "8 * x + 1 / 2 < real_of_int k + 1"
      unfolding k_def by linarith+
    then have "real_of_int k / 8 - x \<le> 1 / 16" "x - real_of_int k / 8 \<le> 1 / 16"
      by linarith+
    then show ?thesis
      unfolding nearest_eighth_def k_def [symmetric] by (simp only: abs_le_iff) simp
  qed
  ultimately show ?thesis
    by (simp add: rounding_def)
qed

lemma rounded_node_bound:
  assumes r: "rounding u eta fl" and le: "fl (de + dur) \<le> L" and w: "0 \<le> w"
  shows "de + dur * (1 - ov)
           - (u * (\<bar>de + dur\<bar> + \<bar>dur * ov\<bar> + \<bar>L - fl (dur * ov)\<bar> + \<bar>fl (L - fl (dur * ov)) + w\<bar>)
              + 4 * eta)
         \<le> fl (fl (L - fl (dur * ov)) + w)"
proof -
  define p where "p = fl (dur * ov)"
  define t where "t = fl (L - p)"
  have 1: "de + dur - (u * \<bar>de + dur\<bar> + eta) \<le> fl (de + dur)"
    using r by (rule rounding_lower)
  have 2: "p \<le> dur * ov + (u * \<bar>dur * ov\<bar> + eta)"
    unfolding p_def using r by (rule rounding_upper)
  have 3: "L - p - (u * \<bar>L - p\<bar> + eta) \<le> t"
    unfolding t_def using r by (rule rounding_lower)
  have 4: "t + w - (u * \<bar>t + w\<bar> + eta) \<le> fl (t + w)"
    using r by (rule rounding_lower)
  have "de + dur * (1 - ov)
           - (u * (\<bar>de + dur\<bar> + \<bar>dur * ov\<bar> + \<bar>L - p\<bar> + \<bar>t + w\<bar>) + 4 * eta)
         \<le> fl (t + w)"
    using 1 2 3 4 le w by (simp add: algebra_simps)
  then show ?thesis
    by (simp only: p_def t_def)
qed

lemma rounded_group_bound:
  assumes r: "rounding u eta fl" and le: "dn \<le> M" and off: "0 \<le> q + gd"
  shows "dn - (u * (\<bar>M + q\<bar> + \<bar>fl (M + q) + gd\<bar>) + 2 * eta) \<le> fl (fl (M + q) + gd)"
proof -
  define s where "s = fl (M + q)"
  have 1: "M + q - (u * \<bar>M + q\<bar> + eta) \<le> s"
    unfolding s_def using r by (rule rounding_lower)
  have 2: "s + gd - (u * \<bar>s + gd\<bar> + eta) \<le> fl (s + gd)"
    using r by (rule rounding_lower)
  have "dn - (u * (\<bar>M + q\<bar> + \<bar>s + gd\<bar>) + 2 * eta) \<le> fl (s + gd)"
    using 1 2 le off by (simp add: algebra_simps)
  then show ?thesis
    by (simp only: s_def)
qed

subsection \<open>The rounded cascade as one loop\<close>

lemma node_delay_fl_eq:
  "node_delay_fl fl es opts edgs rank i node =
     (if incoming_of es (node_id node) = []
      then fl (fl (rank * stagger opts) + fl (real i * fl (stagger opts * fl (5 / 10))))
      else fl (fl (latestEdgeEnd_fl fl opts edgs (incoming_of es (node_id node))
                   - fl (duration opts * nodeOverlap opts))
               + fl (real i * fl (stagger opts * fl (5 / 10)))))"
  by (simp add: node_delay_fl_def map_of_incomingEdges Let_def)

lemma run_items_fl_Nil [simp]: "run_items_fl fl es opts st [] = st"
  by (simp add: run_items_fl_def)

lemma run_items_fl_Cons [simp]:
  "run_items_fl fl es opts st ((rank, item) # items) =
     run_items_fl fl es opts (process_node_fl fl es opts rank st item) items"
  by (simp add: run_items_fl_def)

lemma run_items_fl_append:
  "run_items_fl fl es opts st (xs @ ys) = run_items_fl fl es opts (run_items_fl fl es opts st xs) ys"
  by (simp add: run_items_fl_def)

lemma run_items_fl_bucket:
  "run_items_fl fl es opts st (map (Pair rank) b) = foldl (process_node_fl fl es opts rank) st b"
  by (induction b arbitrary: st) simp_all

lemma foldl_process_rank_fl:
  "foldl (process_rank_fl fl graph opts) st rs =
     run_items_fl fl (graph_edges graph) opts st
       (concat (map (\<lambda>rank. map (Pair rank) (enumerate 0 (bucket_of (graph_nodes graph) rank))) rs))"
  by (induction rs arbitrary: st)
     (simp_all add: run_items_fl_append run_items_fl_bucket process_rank_fl_def)

lemma cascade_fl_eq_run_items:
  "cascade_fl fl graph opts =
     run_items_fl fl (graph_edges graph) opts (Map.empty, Map.empty)
       (schedule_items (graph_nodes graph))"
  by (simp add: cascade_fl_def schedule_items_def foldl_process_rank_fl)

lemma fst_process_node_fl:
  "fst (process_node_fl fl es opts r st (i, n)) =
     (fst st)(node_id n \<mapsto> node_delay_fl fl es opts (snd st) r i n)"
  by (simp add: process_node_fl_def Let_def split: prod.splits)

lemma snd_process_node_fl:
  "snd (process_node_fl fl es opts r st (i, n)) ei =
     (if ei < length es \<and> edge_source (es ! ei) = node_id n
      then Some (fl (node_delay_fl fl es opts (snd st) r i n + duration opts))
      else snd st ei)"
  by (simp add: process_node_fl_def Let_def set_outgoing_apply split: prod.splits)

lemma run_items_fl_nodes_untouched:
  "a \<notin> item_ids items \<Longrightarrow> fst (run_items_fl fl es opts st items) a = fst st a"
proof (induction items arbitrary: st)
  case Nil
  then show ?case by simp
next
  case (Cons it items)
  obtain r i n where it: "it = (r, i, n)" by (cases it)
  with Cons show ?case
    by (simp add: fst_process_node_fl)
qed

lemma run_items_fl_edges_untouched:
  "edge_source (es ! ei) \<notin> item_ids items \<Longrightarrow>
   snd (run_items_fl fl es opts st items) ei = snd st ei"
proof (induction items arbitrary: st)
  case Nil
  then show ?case by simp
next
  case (Cons it items)
  obtain r i n where it: "it = (r, i, n)" by (cases it)
  with Cons show ?case
    by (simp add: snd_process_node_fl)
qed

lemma run_items_fl_dom:
  "dom (fst (run_items_fl fl es opts st items)) = dom (fst st) \<union> item_ids items"
proof (induction items arbitrary: st)
  case Nil
  then show ?case by simp
next
  case (Cons it items)
  obtain r i n where it: "it = (r, i, n)" by (cases it)
  have "dom (fst (process_node_fl fl es opts r st (i, n))) = insert (node_id n) (dom (fst st))"
    unfolding fst_process_node_fl by simp
  with Cons.IH [of "process_node_fl fl es opts r st (i, n)"] show ?case
    by (simp add: it)
qed

lemma process_node_fl_follow:
  assumes "edges_follow_fl fl es opts P st"
  shows "edges_follow_fl fl es opts (insert (node_id n) P) (process_node_fl fl es opts r st (i, n))"
  using assms unfolding edges_follow_fl_def
  by (auto simp: fst_process_node_fl snd_process_node_fl)

lemma run_items_fl_follow:
  "edges_follow_fl fl es opts P st \<Longrightarrow>
   edges_follow_fl fl es opts (P \<union> item_ids items) (run_items_fl fl es opts st items)"
proof (induction items arbitrary: st P)
  case Nil
  then show ?case by simp
next
  case (Cons it items)
  obtain r i n where it: "it = (r, i, n)" by (cases it)
  from Cons.prems
  have "edges_follow_fl fl es opts (insert (node_id n) P) (process_node_fl fl es opts r st (i, n))"
    by (rule process_node_fl_follow)
  from Cons.IH [OF this] show ?case
    by (simp add: it)
qed

lemma cascade_fl_follow:
  "edges_follow_fl fl (graph_edges graph) opts (node_id ` set (graph_nodes graph))
     (cascade_fl fl graph opts)"
proof -
  have "edges_follow_fl fl (graph_edges graph) opts {} (Map.empty, Map.empty)"
    by (simp add: edges_follow_fl_def)
  from run_items_fl_follow [OF this, of "schedule_items (graph_nodes graph)"]
  show ?thesis
    by (simp add: cascade_fl_eq_run_items item_ids_schedule)
qed

lemma nodes_computeDelays_fl:
  "nodes (computeDelays_fl fl graph opts) = fst (cascade_fl fl graph opts)"
  by (simp add: computeDelays_fl_def split: prod.splits)

lemma edges_computeDelays_fl:
  "edges (computeDelays_fl fl graph opts) = snd (cascade_fl fl graph opts)"
  by (simp add: computeDelays_fl_def split: prod.splits)

lemma groups_computeDelays_fl:
  "groups (computeDelays_fl fl graph opts) =
     collectGroupDelays_fl fl (graph_groups graph) (graph_nodes graph) opts
       (nodes (computeDelays_fl fl graph opts)) Map.empty"
  by (simp add: computeDelays_fl_def split: prod.splits)

lemma run_items_fl_at:
  assumes "node_id n \<notin> item_ids zs"
  shows "fst (run_items_fl fl es opts st (ys @ (r, i, n) # zs)) (node_id n) =
           Some (node_delay_fl fl es opts (snd (run_items_fl fl es opts st ys)) r i n)"
  using assms
  by (simp add: run_items_fl_append run_items_fl_nodes_untouched fst_process_node_fl)

lemma latestEdgeEnd_fl_cong:
  "(\<And>ei. ei \<in> set inc \<Longrightarrow> E ei = E' ei) \<Longrightarrow>
   latestEdgeEnd_fl fl opts E inc = latestEdgeEnd_fl fl opts E' inc"
  unfolding latestEdgeEnd_fl_def edge_delay_or_0_def
  by (rule foldl_cong) simp_all

lemma latestEdgeEnd_fl_Max:
  "latestEdgeEnd_fl fl opts E inc =
     Max (insert 0 ((\<lambda>ei. fl (edge_delay_or_0 E ei + duration opts)) ` set inc))"
  unfolding latestEdgeEnd_fl_def by (rule foldl_max_Max)

subsection \<open>Rounded group delays\<close>

lemma set_group_delays_fl_Nil:
  "set_group_delays_fl fl ns opts nd out [] = out"
  by (simp add: set_group_delays_fl_def)

lemma set_group_delays_fl_Cons:
  "set_group_delays_fl fl ns opts nd out (g # gs) =
     set_group_delays_fl fl ns opts nd (out(group_id g \<mapsto> group_delay_fl fl ns opts nd g)) gs"
  by (simp add: set_group_delays_fl_def)

lemma set_group_delays_fl_append:
  "set_group_delays_fl fl ns opts nd out (xs @ ys) =
     set_group_delays_fl fl ns opts nd (set_group_delays_fl fl ns opts nd out xs) ys"
  by (simp add: set_group_delays_fl_def)

lemma collectGroupDelays_fl_eq:
  "collectGroupDelays_fl fl gs allNodes opts nodeDelays out =
     set_group_delays_fl fl allNodes opts nodeDelays out (all_groups gs)"
proof (induction fl gs allNodes opts nodeDelays out rule: collectGroupDelays_fl.induct)
  case (1 fl allNodes opts nodeDelays out)
  show ?case
    by (simp only: collectGroupDelays_fl.simps all_groups.simps set_group_delays_fl_Nil)
next
  case (2 fl gid lbl gx gy gw gh children rk gs allNodes opts nodeDelays out)
  let ?g = "PositionedGroup gid lbl gx gy gw gh children rk"
  let ?inner = "collectGroupDelays_fl fl children allNodes opts nodeDelays out"
  have "collectGroupDelays_fl fl (?g # gs) allNodes opts nodeDelays out =
        collectGroupDelays_fl fl gs allNodes opts nodeDelays
          (?inner(gid \<mapsto> group_delay_fl fl allNodes opts nodeDelays ?g))"
    by (simp only: collectGroupDelays_fl.simps)
  also have "\<dots> = set_group_delays_fl fl allNodes opts nodeDelays
          (?inner(gid \<mapsto> group_delay_fl fl allNodes opts nodeDelays ?g)) (all_groups gs)"
    by (rule "2.IH"(2))
  also have "\<dots> = set_group_delays_fl fl allNodes opts nodeDelays out (all_groups (?g # gs))"
    by (simp only: "2.IH"(1) all_groups.simps set_group_delays_fl_append
        set_group_delays_fl_Cons PositionedGroup.sel)
  finally show ?case .
qed

lemma set_group_delays_fl_untouched:
  "a \<notin> group_id ` set gs \<Longrightarrow> set_group_delays_fl fl ns opts nd out gs a = out a"
  by (induction gs arbitrary: out) (simp_all add: set_group_delays_fl_def)

lemma set_group_delays_fl_at:
  "distinct (map group_id gs) \<Longrightarrow> g \<in> set gs \<Longrightarrow>
   set_group_delays_fl fl ns opts nd out gs (group_id g) = Some (group_delay_fl fl ns opts nd g)"
proof (induction gs arbitrary: out)
  case Nil
  then show ?case by simp
next
  case (Cons h gs)
  show ?case
  proof (cases "g \<in> set gs")
    case True
    with Cons show ?thesis
      by (simp add: set_group_delays_fl_def)
  next
    case False
    with Cons.prems have "g = h" and "group_id h \<notin> group_id ` set gs"
      by auto
    then show ?thesis
      using set_group_delays_fl_untouched [of "group_id h" gs fl ns opts nd]
      by (simp add: set_group_delays_fl_def)
  qed
qed

subsection \<open>With the identity as rounding the computation is the exact one\<close>

lemma latestEdgeEnd_fl_id: "latestEdgeEnd_fl (\<lambda>x. x) = latestEdgeEnd"
  by (simp add: fun_eq_iff latestEdgeEnd_fl_def latestEdgeEnd_def)

lemma node_delay_fl_id: "node_delay_fl (\<lambda>x. x) = node_delay"
  by (simp add: fun_eq_iff node_delay_fl_eq node_delay_eq latestEdgeEnd_fl_id)

lemma process_node_fl_id: "process_node_fl (\<lambda>x. x) = process_node"
  by (simp add: fun_eq_iff process_node_fl_def process_node_def node_delay_fl_id)

lemma process_rank_fl_id: "process_rank_fl (\<lambda>x. x) = process_rank"
  by (simp add: fun_eq_iff process_rank_fl_def process_rank_def process_node_fl_id)

lemma cascade_fl_id: "cascade_fl (\<lambda>x. x) = cascade"
  by (simp add: fun_eq_iff cascade_fl_def cascade_def process_rank_fl_id)

lemma group_delay_fl_id: "group_delay_fl (\<lambda>x. x) = group_delay"
  by (simp add: fun_eq_iff group_delay_fl_def group_delay_def)

lemma collectGroupDelays_fl_id:
  "collectGroupDelays_fl (\<lambda>x. x) gs allNodes opts nodeDelays out =
     collectGroupDelays gs allNodes opts nodeDelays out"
proof (induction gs allNodes opts nodeDelays out rule: collectGroupDelays.induct)
  case (1 allNodes opts nodeDelays out)
  show ?case
    by (simp only: collectGroupDelays_fl.simps collectGroupDelays.simps)
next
  case (2 gid lbl gx gy gw gh children rk gs allNodes opts nodeDelays out)
  show ?case
    by (simp only: collectGroupDelays_fl.simps collectGroupDelays.simps group_delay_fl_id "2.IH")
qed

lemma computeDelays_fl_id: "computeDelays_fl (\<lambda>x. x) graph opts = computeDelays graph opts"
  by (simp add: computeDelays_fl_def computeDelays_def cascade_fl_id collectGroupDelays_fl_id)

subsection \<open>Escaping and markup characters\<close>

lemma markup_chars_append [simp]: "markup_chars (a @ b) = markup_chars a @ markup_chars b"
  by (simp add: markup_chars_def)

lemma markup_chars_Nil [simp]: "markup_chars [] = []"
  by (simp add: markup_chars_def)

lemma markup_chars_Cons [simp]:
  "markup_chars (c # s) = (if is_markup_char c then c # markup_chars s else markup_chars s)"
  by (simp add: markup_chars_def)

lemma replace_all_concat:
  "replace_all c rep (concat (map f s)) = concat (map (\<lambda>a. replace_all c rep (f a)) s)"
  by (induction s) (simp_all add: replace_all_def)

lemma escapeXml_eq: "escapeXml s = concat (map xml_entity s)"
proof -
  have step: "replace_all c rep s = concat (map (\<lambda>a. if a = c then rep else [a]) s)"
    for c rep
    by (simp add: replace_all_def)
  have "escapeXml s = concat (map (\<lambda>a.
          replace_all (CHR 0x27) ''&#39;''
           (replace_all (CHR 0x22) ''&quot;''
             (replace_all CHR ''>'' ''&gt;''
               (replace_all CHR ''<'' ''&lt;''
                 (if a = CHR ''&'' then ''&amp;'' else [a]))))) s)"
    unfolding escapeXml_def
    by (simp only: step [of "CHR ''&''" "''&amp;''"] replace_all_concat)
  also have "\<dots> = concat (map xml_entity s)"
    by (rule arg_cong [where f = concat], rule map_cong [OF refl])
       (simp add: xml_entity_def replace_all_def)
  finally show ?thesis .
qed

lemma markup_chars_xml_entity: "markup_chars (xml_entity c) = []"
  by (simp add: xml_entity_def is_markup_char_def)

lemma markup_chars_escapeXml: "markup_chars (escapeXml s) = []"
  unfolding escapeXml_eq by (induction s) (simp_all add: markup_chars_xml_entity)

lemma markup_chars_renderNodeLabel:
  assumes "l \<noteq> []" and "l' \<noteq> []"
  shows "markup_chars
           (renderNodeLabel num shift (node\<lparr>node_label := l, node_inlineStyle := st\<rparr>)
              font fs fw ls) =
         markup_chars
           (renderNodeLabel num shift (node\<lparr>node_label := l', node_inlineStyle := st'\<rparr>)
              font fs fw ls)"
  using assms by (simp add: renderNodeLabel_def Let_def markup_chars_escapeXml)

lemma markup_chars_renderEdgeLabel:
  assumes "\<And>r. markup_chars (num r) = []"
  shows "map_sum id markup_chars
           (renderEdgeLabel num shift fw width (edge\<lparr>edge_label := Some l\<rparr>) font fs lw) =
         map_sum id markup_chars
           (renderEdgeLabel num shift fw width (edge\<lparr>edge_label := Some l'\<rparr>) font fs lw)"
  by (simp add: renderEdgeLabel_def Let_def markup_chars_escapeXml assms)

lemma markup_chars_renderGroupLabelsInner:
  assumes "\<And>r. markup_chars (num r) = []"
  shows "markup_chars
           (renderGroupLabelsInner num shift width (PositionedGroup gid l gx gy gw gh ch rk)
              font fs fw gf tt) =
         markup_chars
           (renderGroupLabelsInner num shift width (PositionedGroup gid l' gx gy gw gh ch rk)
              font fs fw gf tt)"
  by (simp add: renderGroupLabelsInner_def Let_def markup_chars_escapeXml assms)

subsection \<open>The schedule depends on what the scheduler reads only\<close>

lemma node_timing_fill_rank: "node_timing (fill_rank n) = node_timing n"
  by (simp add: node_timing_def fill_rank_def rank_of_def split: option.splits)

lemma insort_key_timing:
  assumes "list_all2 (\<lambda>a b. node_timing a = node_timing b) xs ys"
      and "node_timing a = node_timing b"
  shows "list_all2 (\<lambda>a b. node_timing a = node_timing b)
           (insort_key node_x a xs) (insort_key node_x b ys)"
  using assms
proof (induction xs ys rule: list_all2_induct)
  case Nil
  then show ?case by simp
next
  case (Cons x xs y ys)
  then have "node_x x = node_x y" "node_x a = node_x b"
    by (simp_all add: node_timing_def)
  with Cons show ?case by simp
qed

lemma sort_key_timing:
  assumes "list_all2 (\<lambda>a b. node_timing a = node_timing b) xs ys"
  shows "list_all2 (\<lambda>a b. node_timing a = node_timing b)
           (sort_key node_x xs) (sort_key node_x ys)"
  using assms
  by (induction xs ys rule: list_all2_induct) (simp_all add: insort_key_timing)

lemma filter_timing:
  assumes "list_all2 (\<lambda>a b. node_timing a = node_timing b) xs ys"
  shows "list_all2 (\<lambda>a b. node_timing a = node_timing b)
           (filter (\<lambda>n. rank_of n = r) xs) (filter (\<lambda>n. rank_of n = r) ys)"
  using assms
  by (induction xs ys rule: list_all2_induct) (auto simp: node_timing_def)

lemma same_timing_iff:
  "map node_timing xs = map node_timing ys \<longleftrightarrow>
   list_all2 (\<lambda>a b. node_timing a = node_timing b) xs ys"
proof -
  have "map node_timing xs = map node_timing ys \<longleftrightarrow>
        list_all2 (=) (map node_timing xs) (map node_timing ys)"
    by (simp add: list.rel_eq)
  then show ?thesis
    by (simp add: list.rel_map)
qed

lemma bucket_of_timing:
  assumes "map node_timing ns = map node_timing ns'"
  shows "map node_timing (bucket_of ns r) = map node_timing (bucket_of ns' r)"
  using assms unfolding bucket_of_eq same_timing_iff
  by (intro sort_key_timing filter_timing)

lemma rank_of_timing: "rank_of n = snd (snd (snd (snd (snd (node_timing n)))))"
  by (simp add: node_timing_def)

lemma sortedRanks_timing:
  assumes "map node_timing ns = map node_timing ns'"
  shows "sortedRanks ns = sortedRanks ns'"
proof (rule sorted_distinct_set_unique)
  have "map rank_of ns = map rank_of ns'"
    using arg_cong [OF assms, of "map (\<lambda>t. snd (snd (snd (snd (snd t)))))"]
    by (simp add: rank_of_timing [abs_def] comp_def)
  then have "set (map rank_of ns) = set (map rank_of ns')"
    by simp
  then show "set (sortedRanks ns) = set (sortedRanks ns')"
    by (simp add: set_sortedRanks)
qed (simp_all add: sorted_sortedRanks distinct_sortedRanks)

lemma process_node_id_only:
  "node_id n = node_id n' \<Longrightarrow>
   process_node es opts r st (i, n) = process_node es opts r st (i, n')"
  by (simp add: process_node_def node_delay_def)

lemma foldl_process_node_ids:
  assumes "list_all2 (\<lambda>a b. node_timing a = node_timing b) b b'"
  shows "foldl (process_node es opts r) st (enumerate k b) =
         foldl (process_node es opts r) st (enumerate k b')"
  using assms
proof (induction b b' arbitrary: st k rule: list_all2_induct)
  case Nil
  then show ?case by simp
next
  case (Cons x xs y ys)
  from Cons.hyps(1) have "node_id x = node_id y"
    by (simp add: node_timing_def)
  then have "process_node es opts r st (k, x) = process_node es opts r st (k, y)"
    by (rule process_node_id_only)
  with Cons.IH show ?case by simp
qed

lemma edge_ends_nth:
  assumes "map edge_ends es = map edge_ends es'" and "i < length es"
  shows "edge_source (es ! i) = edge_source (es' ! i)"
    and "edge_target (es ! i) = edge_target (es' ! i)"
proof -
  from assms(1) have len: "length es = length es'"
    by (rule map_eq_imp_length_eq)
  from assms have "edge_ends (es ! i) = edge_ends (es' ! i)"
    using len by (metis nth_map)
  then show "edge_source (es ! i) = edge_source (es' ! i)"
    and "edge_target (es ! i) = edge_target (es' ! i)"
    by (simp_all add: edge_ends_def)
qed

lemma incomingEdges_ends:
  assumes "map edge_ends es = map edge_ends es'"
  shows "incomingEdges es = incomingEdges es'"
proof -
  from assms have len: "length es = length es'"
    by (rule map_eq_imp_length_eq)
  show ?thesis
    unfolding incomingEdges_def len [symmetric]
    by (rule foldl_cong) (simp_all add: edge_ends_nth(2) [OF assms])
qed

lemma set_outgoing_ends:
  assumes "map edge_ends es = map edge_ends es'"
  shows "set_outgoing es a v edgs = set_outgoing es' a v edgs"
proof -
  from assms have len: "length es = length es'"
    by (rule map_eq_imp_length_eq)
  show ?thesis
    unfolding set_outgoing_def len [symmetric]
    by (rule foldl_cong) (simp_all add: edge_ends_nth(1) [OF assms])
qed

lemma process_node_ends:
  assumes "map edge_ends es = map edge_ends es'"
  shows "process_node es opts r st item = process_node es' opts r st item"
  by (simp add: process_node_def node_delay_def incomingEdges_ends [OF assms]
      set_outgoing_ends [OF assms] split: prod.splits)

lemma process_node_opts:
  assumes "duration opts = duration opts'" "stagger opts = stagger opts'"
      and "nodeOverlap opts = nodeOverlap opts'"
  shows "process_node es opts r st item = process_node es opts' r st item"
  by (simp add: process_node_def node_delay_eq latestEdgeEnd_def assms Let_def split: prod.splits)

lemma group_delay_timing:
  assumes "map node_timing ns = map node_timing ns'"
      and "duration opts = duration opts'" "groupDelay opts = groupDelay opts'"
  shows "group_delay ns opts nd g = group_delay ns' opts' nd g"
proof -
  have "contained_delays ns nd g = contained_delays ns' nd g"
    using assms(1) unfolding same_timing_iff contained_delays_def
    by (induction ns ns' rule: list_all2_induct)
       (simp_all add: node_timing_def inside_group_def)
  then show ?thesis
    by (simp add: group_delay_def group_maxDelay_Max assms(2,3))
qed

lemma computeDelays_cong:
  assumes "timing_inputs graph opts = timing_inputs graph' opts'"
  shows "computeDelays graph opts = computeDelays graph' opts'"
proof -
  from assms have ns: "map node_timing (graph_nodes graph) = map node_timing (graph_nodes graph')"
    and es: "map edge_ends (graph_edges graph) = map edge_ends (graph_edges graph')"
    and gs: "graph_groups graph = graph_groups graph'"
    and d: "duration opts = duration opts'" and s: "stagger opts = stagger opts'"
    and gd: "groupDelay opts = groupDelay opts'" and ov: "nodeOverlap opts = nodeOverlap opts'"
    by (simp_all add: timing_inputs_def)
  have "process_rank graph opts st r = process_rank graph' opts' st r" for st r
  proof -
    have "list_all2 (\<lambda>a b. node_timing a = node_timing b)
            (bucket_of (graph_nodes graph) r) (bucket_of (graph_nodes graph') r)"
      using bucket_of_timing [OF ns, of r] by (simp add: same_timing_iff)
    then have "foldl (process_node (graph_edges graph) opts r) st
                 (enumerate 0 (bucket_of (graph_nodes graph) r)) =
               foldl (process_node (graph_edges graph) opts r) st
                 (enumerate 0 (bucket_of (graph_nodes graph') r))"
      by (rule foldl_process_node_ids)
    moreover have "process_node (graph_edges graph) opts r =
                   process_node (graph_edges graph') opts' r"
      by (intro ext) (simp add: process_node_ends [OF es] process_node_opts [OF d s ov])
    ultimately show ?thesis
      by (simp add: process_rank_def)
  qed
  then have "process_rank graph opts = process_rank graph' opts'"
    by (intro ext)
  then have c: "cascade graph opts = cascade graph' opts'"
    by (simp add: cascade_def sortedRanks_timing [OF ns])
  have "group_delay (graph_nodes graph) opts nd = group_delay (graph_nodes graph') opts' nd" for nd
    by (intro ext) (rule group_delay_timing [OF ns d gd])
  then have "collectGroupDelays gs0 (graph_nodes graph) opts nd out =
             collectGroupDelays gs0 (graph_nodes graph') opts' nd out" for gs0 nd out
    by (simp add: collectGroupDelays_eq set_group_delays_def)
  with c gs show ?thesis
    by (simp add: computeDelays_def)
qed

lemma computeDelays_fill_rank:
  "computeDelays (graph\<lparr>graph_nodes := map fill_rank (graph_nodes graph)\<rparr>) opts =
   computeDelays graph opts"
  by (rule computeDelays_cong) (simp add: timing_inputs_def node_timing_fill_rank comp_def)

subsection \<open>The examples\<close>

lemmas example_defs =
  fan_in_graph_def loop_graph_def same_rank_graph_def example_node_def example_edge_def
  documented_opts_def documented_options_def out_of_range_options_def
  negative_stagger_options_def spread_def spread_field_def DEFAULTS_def

lemma fan_in_bucket_0:
  "bucket_of (graph_nodes fan_in_graph) 0 = [example_node ''A'' 0 0 (Some 0), example_node ''B'' 100 0 None]"
  by (simp add: bucket_of_eq example_defs rank_of_def)

lemma fan_in_bucket_1:
  "bucket_of (graph_nodes fan_in_graph) 1 = [example_node ''C'' 50 100 (Some 1)]"
  by (simp add: bucket_of_eq example_defs rank_of_def)

lemma digit_not_markup: "\<not> is_markup_char (''0123456789'' ! (n mod 10))"
proof -
  have "''0123456789'' ! (n mod 10) \<in> set ''0123456789''"
    by (rule nth_mem) simp
  then show ?thesis
    by (auto simp: is_markup_char_def)
qed

lemma markup_chars_digits_nat: "markup_chars (digits_nat fuel n) = []"
  by (induction fuel n rule: digits_nat.induct) (simp_all add: digit_not_markup)

lemma markup_chars_example_num: "markup_chars (example_num r) = []"
  by (simp add: example_num_def markup_chars_digits_nat is_markup_char_def)

section \<open>Edges follow their source node\<close>

text \<open>
  C1. In a layout whose edge endpoints all are ids of nodes of the layout, the schedule
  gives every edge the delay of its source node plus the duration.
\<close>

theorem computeDelays_edge_after_source:
  assumes "edge_source ` set (graph_edges graph) \<subseteq> node_id ` set (graph_nodes graph)"
      and "edge_target ` set (graph_edges graph) \<subseteq> node_id ` set (graph_nodes graph)"
      and "ei < length (graph_edges graph)"
  shows "\<exists>d. nodes (computeDelays graph opts) (edge_source (graph_edges graph ! ei)) = Some d \<and>
             edges (computeDelays graph opts) ei = Some (d + duration opts)"
proof -
  from assms(1,3) have "edge_source (graph_edges graph ! ei) \<in> node_id ` set (graph_nodes graph)"
    using nth_mem by blast
  with cascade_follow [of graph opts] assms(3) show ?thesis
    unfolding edges_follow_def nodes_computeDelays edges_computeDelays by blast
qed

theorem computeDelays_edge_after_source_witness:
  "edge_source ` set (graph_edges fan_in_graph) \<subseteq> node_id ` set (graph_nodes fan_in_graph) \<and>
   edge_target ` set (graph_edges fan_in_graph) \<subseteq> node_id ` set (graph_nodes fan_in_graph) \<and>
   1 < length (graph_edges fan_in_graph) \<and>
   edge_source (graph_edges fan_in_graph ! 1) = ''B'' \<and>
   (\<exists>d. nodes (computeDelays fan_in_graph documented_opts) ''B'' = Some d \<and>
        edges (computeDelays fan_in_graph documented_opts) 1 = Some (d + 600))"
proof -
  have h1: "edge_source ` set (graph_edges fan_in_graph) \<subseteq> node_id ` set (graph_nodes fan_in_graph)"
    by (simp add: example_defs)
  have h2: "edge_target ` set (graph_edges fan_in_graph) \<subseteq> node_id ` set (graph_nodes fan_in_graph)"
    by (simp add: example_defs)
  have h3: "1 < length (graph_edges fan_in_graph)"
    by (simp add: example_defs)
  have src: "edge_source (graph_edges fan_in_graph ! 1) = ''B''"
    and dur: "duration documented_opts = 600"
    by (simp_all add: example_defs)
  from computeDelays_edge_after_source [OF h1 h2 h3, of documented_opts] h1 h2 h3 src
  show ?thesis
    by (simp only: src dur)
qed

section \<open>Nodes with incoming edges\<close>




section \<open>Root nodes\<close>




section \<open>Group delays\<close>




section \<open>Delays are not negative for a configuration in range\<close>

text \<open>
  C5 (as amended). When duration and stagger are not negative, nodeOverlap is at most 1,
  duration * 0.6 + groupDelay is not negative and no node has a negative rank, every node
  delay, every edge delay and every group delay of the schedule is at least 0.
\<close>

theorem computeDelays_nonnegative:
  assumes "0 \<le> duration opts" and "0 \<le> stagger opts" and "nodeOverlap opts \<le> 1"
      and "0 \<le> duration opts * GROUP_REVEAL_PROGRESS + groupDelay opts"
      and "list_all (\<lambda>n. 0 \<le> rank_of n) (graph_nodes graph)"
  shows "(\<forall>k d. nodes (computeDelays graph opts) k = Some d \<longrightarrow> 0 \<le> d) \<and>
         (\<forall>ei d. edges (computeDelays graph opts) ei = Some d \<longrightarrow> 0 \<le> d) \<and>
         (\<forall>k d. groups (computeDelays graph opts) k = Some d \<longrightarrow> 0 \<le> d)"
proof -
  from assms(5) have "\<And>n. n \<in> set (graph_nodes graph) \<Longrightarrow> 0 \<le> rank_of n"
    by (simp add: list_all_iff)
  with assms(1-3) have c: "nonneg_map (fst (cascade graph opts))"
      "nonneg_map (snd (cascade graph opts))"
    using cascade_nonneg [of opts graph] by simp_all
  have "0 \<le> group_delay (graph_nodes graph) opts (nodes (computeDelays graph opts)) g" for g
  proof -
    define M where "M = Max (insert 0 (set (contained_delays (graph_nodes graph)
                 (nodes (computeDelays graph opts)) g)))"
    have "0 \<le> M"
      unfolding M_def by (intro Max_ge) simp_all
    with assms(4) have "0 \<le> M + duration opts * GROUP_REVEAL_PROGRESS + groupDelay opts"
      by linarith
    then show ?thesis
      by (simp only: group_delay_def group_maxDelay_Max M_def)
  qed
  then have "nonneg_map (groups (computeDelays graph opts))"
    unfolding groups_computeDelays collectGroupDelays_eq
    by (intro set_group_delays_nonneg) simp_all
  with c show ?thesis
    by (simp add: nonneg_map_def nodes_computeDelays edges_computeDelays)
qed

theorem computeDelays_nonnegative_witness:
  "0 \<le> duration documented_opts \<and> 0 \<le> stagger documented_opts \<and>
   nodeOverlap documented_opts \<le> 1 \<and>
   0 \<le> duration documented_opts * GROUP_REVEAL_PROGRESS + groupDelay documented_opts \<and>
   groupDelay documented_opts = - 60 \<and>
   list_all (\<lambda>n. 0 \<le> rank_of n) (graph_nodes fan_in_graph) \<and>
   nodes (computeDelays fan_in_graph documented_opts) ''B'' = Some 40 \<and> (0 :: real) \<le> 40 \<and>
   groups (computeDelays fan_in_graph documented_opts) ''G'' = Some 1360 \<and> (0 :: real) \<le> 1360"
proof -
  have h: "0 \<le> duration documented_opts" "0 \<le> stagger documented_opts"
    "nodeOverlap documented_opts \<le> 1"
    "0 \<le> duration documented_opts * GROUP_REVEAL_PROGRESS + groupDelay documented_opts"
    "list_all (\<lambda>n. 0 \<le> rank_of n) (graph_nodes fan_in_graph)"
    and gd: "groupDelay documented_opts = - 60"
    by (simp_all add: example_defs GROUP_REVEAL_PROGRESS_def rank_of_def)
  have vals: "nodes (computeDelays fan_in_graph documented_opts) ''B'' = Some 40"
    "groups (computeDelays fan_in_graph documented_opts) ''G'' = Some 1360"
    by code_simp+
  from computeDelays_nonnegative [OF h] vals have "(0 :: real) \<le> 40" "(0 :: real) \<le> 1360"
    by blast+
  with h gd vals show ?thesis
    by blast
qed

text \<open>
  The claim as stated, for every configuration, fails: resolving the options
  \<open>{stagger: -80}\<close> gives a configuration with which the root node B, second in its
  rank, is delayed by -40.
\<close>

theorem computeDelays_nonnegative_counterexample:
  "resolveAnimation (AnimateOptions negative_stagger_options) =
     Some (spread DEFAULTS negative_stagger_options) \<and>
   nodes (computeDelays fan_in_graph (spread DEFAULTS negative_stagger_options)) ''B'' = Some (- 40) \<and>
   \<not> ((0 :: real) \<le> - 40)"
  by code_simp

section \<open>Easing translation: named lookup and explicit parse agree\<close>

text \<open>
  C7. The named curve "ease-in-out" and the explicit expression
  "cubic-bezier(0.42, 0, 0.58, 1)" translate to the same key splines, the first through
  the table of named easings and the second, which is not in the table, through the
  pattern for control points.
\<close>

theorem cssEasingToSmil_ease_in_out_parity:
  "map_of NAMED_EASINGS ''ease-in-out'' = Some ''0.42 0 0.58 1'' \<and>
   cssEasingToSmil ''ease-in-out'' = KeySplines ''0.42 0 0.58 1'' \<and>
   map_of NAMED_EASINGS ''cubic-bezier(0.42, 0, 0.58, 1)'' = None \<and>
   regex_match ''cubic-bezier(0.42, 0, 0.58, 1)'' = Some (''0.42'', ''0'', ''0.58'', ''1'') \<and>
   cssEasingToSmil ''cubic-bezier(0.42, 0, 0.58, 1)'' = KeySplines ''0.42 0 0.58 1'' \<and>
   cssEasingToSmil ''cubic-bezier(0.42, 0, 0.58, 1)'' = cssEasingToSmil ''ease-in-out''"
  by code_simp

section \<open>Option resolution does not clamp\<close>

text \<open>
  C8 (as amended). Option resolution never fails and never clamps: an options object
  resolves to the defaults with every field that the object gives put in its place as it
  is, in range or not.
\<close>

theorem resolveAnimation_keeps_given_values:
  "resolveAnimation (AnimateOptions a) = Some (spread DEFAULTS a) \<and>
   duration (spread DEFAULTS a) = (case opt_duration a of None \<Rightarrow> 650 | Some v \<Rightarrow> v) \<and>
   stagger (spread DEFAULTS a) = (case opt_stagger a of None \<Rightarrow> 0 | Some v \<Rightarrow> v) \<and>
   groupDelay (spread DEFAULTS a) = (case opt_groupDelay a of None \<Rightarrow> 110 | Some v \<Rightarrow> v) \<and>
   nodeOverlap (spread DEFAULTS a) = (case opt_nodeOverlap a of None \<Rightarrow> 35 / 100 | Some v \<Rightarrow> v)"
  by (simp add: spread_def spread_field_def DEFAULTS_def split: option.splits)

theorem resolveAnimation_keeps_given_values_witness:
  "resolveAnimation (AnimateOptions documented_options) = Some documented_opts \<and>
   duration documented_opts = 600 \<and> stagger documented_opts = 80 \<and>
   groupDelay documented_opts = - 60 \<and> nodeOverlap documented_opts = 3 / 10"
  using resolveAnimation_keeps_given_values [of documented_options]
  by (simp add: documented_opts_def documented_options_def)

text \<open>
  The claim as stated fails: the options \<open>{duration: -5, nodeOverlap: 2}\<close> resolve to a
  configuration with duration -5 and nodeOverlap 2.
\<close>

theorem resolveAnimation_clamps_counterexample:
  "map_option duration (resolveAnimation (AnimateOptions out_of_range_options)) = Some (- 5) \<and>
   \<not> (0 :: real) \<le> - 5 \<and>
   map_option nodeOverlap (resolveAnimation (AnimateOptions out_of_range_options)) = Some 2 \<and>
   \<not> (2 :: real) \<le> 1"
  by (simp add: out_of_range_options_def spread_def spread_field_def DEFAULTS_def)

section \<open>Every node gets a delay\<close>

text \<open>
  C9. The keys of the node delays are exactly the ids of the nodes of the layout. A node
  without a rank is in the bucket of rank 0, and the schedule is the one of the layout in
  which every absent rank is written out as 0.
\<close>

theorem computeDelays_covers_nodes:
  "dom (nodes (computeDelays graph opts)) = node_id ` set (graph_nodes graph) \<and>
   (\<forall>n \<in> set (graph_nodes graph).
      node_rank n = None \<longrightarrow> rank_of n = 0 \<and> n \<in> set (bucket_of (graph_nodes graph) 0)) \<and>
   computeDelays (graph\<lparr>graph_nodes := map fill_rank (graph_nodes graph)\<rparr>) opts =
     computeDelays graph opts"
proof -
  have "dom (nodes (computeDelays graph opts)) = node_id ` set (graph_nodes graph)"
    by (simp add: nodes_computeDelays cascade_eq_run_items run_items_dom item_ids_schedule)
  moreover have "rank_of n = 0 \<and> n \<in> set (bucket_of (graph_nodes graph) 0)"
    if "n \<in> set (graph_nodes graph)" "node_rank n = None" for n
    using that by (simp add: bucket_member rank_of_def)
  ultimately show ?thesis
    by (simp add: computeDelays_fill_rank)
qed

theorem computeDelays_covers_nodes_witness:
  "dom (nodes (computeDelays fan_in_graph documented_opts)) = {''C'', ''A'', ''B''} \<and>
   example_node ''B'' 100 0 None \<in> set (graph_nodes fan_in_graph) \<and>
   node_rank (example_node ''B'' 100 0 None) = None \<and>
   example_node ''B'' 100 0 None \<in> set (bucket_of (graph_nodes fan_in_graph) 0) \<and>
   fill_rank (example_node ''B'' 100 0 None) = example_node ''B'' 100 0 (Some 0) \<and>
   computeDelays (fan_in_graph\<lparr>graph_nodes := map fill_rank (graph_nodes fan_in_graph)\<rparr>)
       documented_opts =
     computeDelays fan_in_graph documented_opts"
proof -
  let ?B = "example_node ''B'' 100 0 None"
  have ids: "node_id ` set (graph_nodes fan_in_graph) = {''C'', ''A'', ''B''}"
    and b: "?B \<in> set (graph_nodes fan_in_graph)" and rk: "node_rank ?B = None"
    and fr: "fill_rank ?B = example_node ''B'' 100 0 (Some 0)"
    by (simp_all add: example_defs fill_rank_def)
  note inst = computeDelays_covers_nodes [of fan_in_graph documented_opts]
  from inst b rk have "?B \<in> set (bucket_of (graph_nodes fan_in_graph) 0)"
    by blast
  with inst ids b rk fr show ?thesis
    by simp
qed

section \<open>XML escaping\<close>

text \<open>
  C10. escapeXml returns a string without the characters \<open><\<close>, \<open>>\<close>, the double quote and
  the apostrophe: it is the input with each of them, and each \<open>&\<close>, replaced by its entity.
  The label of a node, of an edge and of a group, and the inline colour of a node label,
  reach the output of their renderer through escapeXml only, so the markup characters of
  the rendered element do not depend on them (the printer of numbers printing no markup
  character).
\<close>

theorem escapeXml_no_markup:
  assumes "\<forall>r. markup_chars (num r) = []"
  shows "CHR ''<'' \<notin> set (escapeXml s) \<and> CHR ''>'' \<notin> set (escapeXml s) \<and>
         CHR 0x22 \<notin> set (escapeXml s) \<and> CHR 0x27 \<notin> set (escapeXml s) \<and>
         escapeXml s = concat (map xml_entity s) \<and>
         (l \<noteq> [] \<and> l' \<noteq> [] \<longrightarrow>
            markup_chars
              (renderNodeLabel num shift (node\<lparr>node_label := l, node_inlineStyle := st\<rparr>)
                 font fs fw ls) =
            markup_chars
              (renderNodeLabel num shift (node\<lparr>node_label := l', node_inlineStyle := st'\<rparr>)
                 font fs fw ls)) \<and>
         map_sum id markup_chars
           (renderEdgeLabel num shift efw mono_width (edge\<lparr>edge_label := Some l\<rparr>) font fs lw) =
         map_sum id markup_chars
           (renderEdgeLabel num shift efw mono_width (edge\<lparr>edge_label := Some l'\<rparr>) font fs lw) \<and>
         markup_chars
           (renderGroupLabelsInner num shift text_width (PositionedGroup gid l gx gy gw gh ch rk)
              font fs fw gf tt) =
         markup_chars
           (renderGroupLabelsInner num shift text_width (PositionedGroup gid l' gx gy gw gh ch rk)
              font fs fw gf tt)"
proof -
  have "markup_chars (escapeXml s) = []"
    by (rule markup_chars_escapeXml)
  then have "\<forall>c \<in> set (escapeXml s). \<not> is_markup_char c"
    by (simp add: markup_chars_def filter_empty_conv)
  then have "CHR ''<'' \<notin> set (escapeXml s) \<and> CHR ''>'' \<notin> set (escapeXml s) \<and>
         CHR 0x22 \<notin> set (escapeXml s) \<and> CHR 0x27 \<notin> set (escapeXml s)"
    by (auto simp: is_markup_char_def)
  moreover from assms have num: "\<And>r. markup_chars (num r) = []"
    by simp
  moreover have "l \<noteq> [] \<and> l' \<noteq> [] \<longrightarrow>
            markup_chars
              (renderNodeLabel num shift (node\<lparr>node_label := l, node_inlineStyle := st\<rparr>)
                 font fs fw ls) =
            markup_chars
              (renderNodeLabel num shift (node\<lparr>node_label := l', node_inlineStyle := st'\<rparr>)
                 font fs fw ls)"
    by (simp add: markup_chars_renderNodeLabel)
  moreover have "map_sum id markup_chars
           (renderEdgeLabel num shift efw mono_width (edge\<lparr>edge_label := Some l\<rparr>) font fs lw) =
         map_sum id markup_chars
           (renderEdgeLabel num shift efw mono_width (edge\<lparr>edge_label := Some l'\<rparr>) font fs lw)"
    by (rule markup_chars_renderEdgeLabel [OF num])
  moreover have "markup_chars
           (renderGroupLabelsInner num shift text_width (PositionedGroup gid l gx gy gw gh ch rk)
              font fs fw gf tt) =
         markup_chars
           (renderGroupLabelsInner num shift text_width (PositionedGroup gid l' gx gy gw gh ch rk)
              font fs fw gf tt)"
    by (rule markup_chars_renderGroupLabelsInner [OF num])
  ultimately show ?thesis
    by (simp only: escapeXml_eq [symmetric] simp_thms)
qed

theorem escapeXml_no_markup_witness:
  \<open>(\<forall>r. markup_chars (example_num r) = []) \<and>
   escapeXml ''<a href="x">Tom & Jerry</a>'' =
     ''&lt;a href=&quot;x&quot;&gt;Tom &amp; Jerry&lt;/a&gt;'' \<and>
   CHR ''<'' \<notin> set (escapeXml ''<a href="x">Tom & Jerry</a>'') \<and>
   markup_chars
     (renderNodeLabel example_num ''0.35em''
        ((example_node ''A'' 0 0 None)
           \<lparr>node_label := ''<script>'', node_inlineStyle := Some [(''color'', ''"/><script>'')]\<rparr>)
        ''Inter'' 13 500 0) =
   markup_chars
     (renderNodeLabel example_num ''0.35em''
        ((example_node ''A'' 0 0 None)\<lparr>node_label := ''A'', node_inlineStyle := None\<rparr>)
        ''Inter'' 13 500 0) \<and>
   renderNodeLabel example_num ''0.35em''
        ((example_node ''A'' 0 0 None)
           \<lparr>node_label := ''<script>'', node_inlineStyle := Some [(''color'', ''"/><script>'')]\<rparr>)
        ''Inter'' 13 500 0 =
     ''<text x="20" y="10" text-anchor="middle" dy="0.35em" font-size="13" font-weight="500" fill="&quot;/&gt;&lt;script&gt;">&lt;script&gt;</text>''\<close>
proof -
  have h: "\<forall>r. markup_chars (example_num r) = []"
    by (simp add: markup_chars_example_num)
  have ne: "''<script>'' \<noteq> [] \<and> ''A'' \<noteq> []"
    by simp
  note inst = escapeXml_no_markup [OF h, where s = \<open>''<a href="x">Tom & Jerry</a>''\<close>
      and l = "''<script>''" and l' = "''A''" and shift = "''0.35em''"
      and node = "example_node ''A'' 0 0 None" and font = "''Inter''"
      and st = \<open>Some [(''color'', ''"/><script>'')]\<close> and st' = None
      and fs = 13 and fw = 500 and ls = 0]
  have a: \<open>escapeXml ''<a href="x">Tom & Jerry</a>'' =
     ''&lt;a href=&quot;x&quot;&gt;Tom &amp; Jerry&lt;/a&gt;''\<close>
    by code_simp
  have b: \<open>renderNodeLabel example_num ''0.35em''
        ((example_node ''A'' 0 0 None)
           \<lparr>node_label := ''<script>'', node_inlineStyle := Some [(''color'', ''"/><script>'')]\<rparr>)
        ''Inter'' 13 500 0 =
     ''<text x="20" y="10" text-anchor="middle" dy="0.35em" font-size="13" font-weight="500" fill="&quot;/&gt;&lt;script&gt;">&lt;script&gt;</text>''\<close>
    by code_simp
  from inst ne h a b show ?thesis
    by blast
qed

end
